theory Spec2Isabelle
  imports Complex_Main "HOL-Library.Word" "HOL-Library.Sublist" "HOL-Library.Multiset"
    "HOL-Library.Product_Lexorder" "HOL-Library.List_Lexorder" "HOL-Library.Char_ord"
begin

section \<open>The hash-derived embedder (examples/custom\_implementation.py)\<close>

text \<open>
  Python texts are modelled as \<open>string\<close>, one \<open>char\<close> per code point (code points
  0 to 255), so \<open>text.encode()\<close> never raises. \<open>hashlib.sha256(text.encode()).digest()\<close>
  is a library call: it is the parameter \<open>sha256\<close> of the model, a function from the
  text to the digest bytes. Nothing below assumes that a digest has 32 bytes; the source
  does not either (it takes \<open>len(hash_bytes)\<close> and pads every chunk with \<open>ljust\<close>).

  A float made by \<open>struct.unpack("f", chunk)[0]\<close> is represented by the four bytes it
  was unpacked from (its native single-precision representation), and the literal
  \<open>0.0\<close> by four zero bytes, which is its representation in every byte order.
\<close>

type_synonym byte = "8 word"

datatype pyfloat = Unpacked "byte list"

definition unpack_f :: "byte list \<Rightarrow> pyfloat" where
  "unpack_f chunk = Unpacked chunk"

definition zero_float :: pyfloat where
  "zero_float = Unpacked [0, 0, 0, 0]"

record DummyEmbedder =
  dimensions :: int

text \<open>\<open>range(0, stop, 4)\<close>: the multiples of 4 below \<open>stop\<close>, none when \<open>stop \<le> 0\<close>.\<close>

definition range_step4 :: "int \<Rightarrow> nat list" where
  "range_step4 stop = map (\<lambda>k. 4 * k) [0 ..< nat ((stop + 3) div 4)]"

text \<open>\<open>bs.ljust(4, b"\x00")\<close>: zero bytes appended up to length 4.\<close>

definition ljust4 :: "byte list \<Rightarrow> byte list" where
  "ljust4 bs = bs @ replicate (4 - length bs) 0"

text \<open>\<open>hash_bytes[i : i + 4]\<close>: a slice is cut off at the end of the bytes.\<close>

definition slice4 :: "byte list \<Rightarrow> nat \<Rightarrow> byte list" where
  "slice4 hash_bytes i = take 4 (drop i hash_bytes)"

text \<open>The \<open>for i in range(...)\<close> loop, appending one float to \<open>vec\<close> per index.\<close>

fun floats_loop :: "byte list \<Rightarrow> nat list \<Rightarrow> pyfloat list \<Rightarrow> pyfloat list" where
  "floats_loop hash_bytes [] vec = vec"
| "floats_loop hash_bytes (i # is) vec =
     floats_loop hash_bytes is (vec @ [unpack_f (ljust4 (slice4 hash_bytes i))])"

text \<open>\<open>while len(vec) < self.dimensions: vec.append(0.0)\<close>.\<close>

function pad_loop :: "int \<Rightarrow> pyfloat list \<Rightarrow> pyfloat list" where
  "pad_loop dims vec =
     (if int (length vec) < dims then pad_loop dims (vec @ [zero_float]) else vec)"
  by pat_completeness auto
termination
  by (relation "measure (\<lambda>(dims, vec). nat (dims - int (length vec)))") auto

declare pad_loop.simps [simp del]

text \<open>\<open>vec[:d]\<close>: a negative bound counts from the end of the list.\<close>

definition slice_to :: "int \<Rightarrow> 'a list \<Rightarrow> 'a list" where
  "slice_to d xs =
     (if d < 0 then take (nat (int (length xs) + d)) xs else take (nat d) xs)"

text \<open>The body of the outer loop for one text.\<close>

definition embed_text :: "(string \<Rightarrow> byte list) \<Rightarrow> DummyEmbedder \<Rightarrow> string \<Rightarrow> pyfloat list" where
  "embed_text sha256 self text =
     (let hash_bytes = sha256 text;
          vec = floats_loop hash_bytes
                  (range_step4 (min (int (length hash_bytes)) (dimensions self * 4))) [];
          vec = pad_loop (dimensions self) vec
      in slice_to (dimensions self) vec)"

fun embed_loop ::
  "(string \<Rightarrow> byte list) \<Rightarrow> DummyEmbedder \<Rightarrow> string list \<Rightarrow> pyfloat list list \<Rightarrow> pyfloat list list"
where
  "embed_loop sha256 self [] embeddings = embeddings"
| "embed_loop sha256 self (text # texts) embeddings =
     embed_loop sha256 self texts (embeddings @ [embed_text sha256 self text])"

definition embed :: "(string \<Rightarrow> byte list) \<Rightarrow> DummyEmbedder \<Rightarrow> string list \<Rightarrow> pyfloat list list" where
  "embed sha256 self texts = embed_loop sha256 self texts []"

datatype py_error = IndexError

text \<open>\<open>self.embed([text])[0]\<close>: indexing an empty list raises IndexError.\<close>

definition embed_single :: "(string \<Rightarrow> byte list) \<Rightarrow> DummyEmbedder \<Rightarrow> string \<Rightarrow> py_error + pyfloat list" where
  "embed_single sha256 self text =
     (case embed sha256 self [text] of [] \<Rightarrow> Inl IndexError | v # _ \<Rightarrow> Inr v)"

text \<open>
  A stand-in digest, used only to run the model on concrete inputs: 32 bytes, each of
  them the length of the text. Every theorem below holds for every digest function.
\<close>

definition sample_digest :: "string \<Rightarrow> byte list" where
  "sample_digest text = replicate 32 (of_nat (length text))"

section \<open>The regex-based extractor (examples/custom\_implementation.py)\<close>

record ExtractedEntity =
  title :: string
  type :: string
  description :: string

record ExtractedRelationship =
  source_title :: string
  target_title :: string
  relationship_type :: string
  description :: string
  weight :: real

subsection \<open>The two regular expressions\<close>

text \<open>The character classes \<open>[A-Z]\<close>, \<open>[a-z]\<close> and \<open>[0-9]\<close>.\<close>

definition is_upper :: "char \<Rightarrow> bool" where
  "is_upper c = (65 \<le> (of_char c :: nat) \<and> (of_char c :: nat) \<le> 90)"

definition is_lower :: "char \<Rightarrow> bool" where
  "is_lower c = (97 \<le> (of_char c :: nat) \<and> (of_char c :: nat) \<le> 122)"

definition is_digit :: "char \<Rightarrow> bool" where
  "is_digit c = (48 \<le> (of_char c :: nat) \<and> (of_char c :: nat) \<le> 57)"

text \<open>
  The class \<open>\w\<close> of a Python 3 \<open>str\<close> pattern: the alphanumeric code points and
  the underscore. Below 256 the alphanumeric code points outside ASCII are 170, 178, 179,
  181, 185, 186, 188 to 190 and 192 to 255 without the signs 215 and 247.
\<close>

definition is_word :: "char \<Rightarrow> bool" where
  "is_word c =
     (let n = (of_char c :: nat) in
      is_digit c \<or> is_upper c \<or> is_lower c \<or> n = 95
      \<or> n = 170 \<or> n = 178 \<or> n = 179 \<or> n = 181 \<or> n = 185 \<or> n = 186
      \<or> (188 \<le> n \<and> n \<le> 190)
      \<or> (192 \<le> n \<and> n \<le> 255 \<and> n \<noteq> 215 \<and> n \<noteq> 247))"

text \<open>
  \<open>\b\<close> at a position of the text, given the character before it (\<open>None\<close> at the
  start) and the rest of the text from it: exactly one of the two sides is a word
  character, the outside of the text counting as a non-word character.
\<close>

definition word_boundary :: "char option \<Rightarrow> string \<Rightarrow> bool" where
  "word_boundary prev rest =
     ((case prev of None \<Rightarrow> False | Some c \<Rightarrow> is_word c)
      \<noteq> (case rest of [] \<Rightarrow> False | c # _ \<Rightarrow> is_word c))"

text \<open>
  \<open>\b([A-Z][a-z]+ [A-Z][a-z]+)\b\<close> tried at one position; the result is group 1.
  Each \<open>[a-z]+\<close> is greedy and can only succeed with the whole run of lower-case
  letters: after a shorter run the next character is a lower-case letter, which is
  neither the space that must follow the first run nor, being a word character after a
  word character, a place where the final \<open>\b\<close> holds. So no backtracking is lost.
\<close>

definition match_person :: "char option \<Rightarrow> string \<Rightarrow> string option" where
  "match_person prev s =
     (if \<not> word_boundary prev s then None
      else case s of
        [] \<Rightarrow> None
      | c1 # r1 \<Rightarrow>
          if \<not> is_upper c1 then None
          else let l1 = takeWhile is_lower r1; r2 = dropWhile is_lower r1 in
            if l1 = [] then None
            else case r2 of
              [] \<Rightarrow> None
            | sp # r3 \<Rightarrow>
                if sp \<noteq> CHR '' '' then None
                else case r3 of
                  [] \<Rightarrow> None
                | c2 # r4 \<Rightarrow>
                    if \<not> is_upper c2 then None
                    else let l2 = takeWhile is_lower r4; r5 = dropWhile is_lower r4 in
                      if l2 = [] then None
                      else if word_boundary (Some (last l2)) r5
                        then Some (c1 # l1 @ [sp, c2] @ l2)
                        else None)"

text \<open>
  \<open>\b(1[0-9]{3}|20[0-9]{2})\b\<close> tried at one position: four characters, of either
  alternative, and a word boundary on both sides.
\<close>

definition match_year :: "char option \<Rightarrow> string \<Rightarrow> string option" where
  "match_year prev s =
     (if \<not> word_boundary prev s then None
      else case s of
        a # b # c # d # rest \<Rightarrow>
          if ((a = CHR ''1'' \<and> is_digit b \<and> is_digit c \<and> is_digit d)
              \<or> (a = CHR ''2'' \<and> b = CHR ''0'' \<and> is_digit c \<and> is_digit d))
             \<and> word_boundary (Some d) rest
          then Some [a, b, c, d] else None
      | _ \<Rightarrow> None)"

text \<open>
  \<open>re.findall\<close> for a pattern with one group: the text is scanned from the left, a
  match is tried at every position, and after a match the scan goes on at its end.
  \<open>skip\<close> counts the characters of the last match still to be passed over. Both
  patterns match at least four characters, so there is no empty match and no match at
  the end of the text.
\<close>

fun findall_from ::
  "(char option \<Rightarrow> string \<Rightarrow> string option) \<Rightarrow> char option \<Rightarrow> nat \<Rightarrow> string \<Rightarrow> string list"
where
  "findall_from m prev skip [] = []"
| "findall_from m prev skip (c # cs) =
     (if 0 < skip then findall_from m (Some c) (skip - 1) cs
      else case m prev (c # cs) of
        None \<Rightarrow> findall_from m (Some c) 0 cs
      | Some g \<Rightarrow> g # findall_from m (Some c) (length g - 1) cs)"

definition findall :: "(char option \<Rightarrow> string \<Rightarrow> string option) \<Rightarrow> string \<Rightarrow> string list" where
  "findall m text = findall_from m None 0 text"

text \<open>\<open>sub in text\<close>: \<open>sub\<close> occurs in \<open>text\<close> as a contiguous piece.\<close>

fun str_contains :: "string \<Rightarrow> string \<Rightarrow> bool" where
  "str_contains [] sub = (sub = [])"
| "str_contains (c # cs) sub = (prefix sub (c # cs) \<or> str_contains cs sub)"

subsection \<open>The method extract\<close>

text \<open>
  \<open>set(re.findall(...))\<close> is iterated twice, by two \<open>for\<close> loops over the same,
  unchanged set object. The order in which a Python set yields its elements is fixed by
  the interpreter (the hashes of the strings and the order of insertion), not by the
  program: it is the parameter \<open>iter_set\<close>, which turns the list the set is built from
  into the list of its elements in iteration order. \<open>is_set_of ys xs\<close> says that \<open>ys\<close>
  is such an order of \<open>set(xs)\<close>: every element of \<open>xs\<close> once.
\<close>

definition is_set_of :: "string list \<Rightarrow> string list \<Rightarrow> bool" where
  "is_set_of ys xs = (distinct ys \<and> set ys = set xs)"

definition person_entity :: "string \<Rightarrow> ExtractedEntity" where
  "person_entity person =
     \<lparr>title = person, type = ''Person'', description = ''Person mentioned: '' @ person\<rparr>"

definition year_entity :: "string \<Rightarrow> ExtractedEntity" where
  "year_entity year =
     \<lparr>title = year, type = ''Year'', description = ''Year mentioned: '' @ year\<rparr>"

definition mentioned_in :: "string \<Rightarrow> string \<Rightarrow> ExtractedRelationship" where
  "mentioned_in person year =
     \<lparr>source_title = person, target_title = year, relationship_type = ''MENTIONED_IN'',
      description = person @ '' mentioned in context of '' @ year, weight = 0.5\<rparr>"

fun persons_loop :: "string list \<Rightarrow> ExtractedEntity list \<Rightarrow> ExtractedEntity list" where
  "persons_loop [] entities = entities"
| "persons_loop (person # persons) entities =
     persons_loop persons (entities @ [person_entity person])"

fun years_loop :: "string list \<Rightarrow> ExtractedEntity list \<Rightarrow> ExtractedEntity list" where
  "years_loop [] entities = entities"
| "years_loop (year # years) entities =
     years_loop years (entities @ [year_entity year])"

fun inner_loop ::
  "string \<Rightarrow> string \<Rightarrow> string list \<Rightarrow> ExtractedRelationship list \<Rightarrow> ExtractedRelationship list"
where
  "inner_loop text person [] relationships = relationships"
| "inner_loop text person (year # years) relationships =
     inner_loop text person years
       (if str_contains text person \<and> str_contains text year
        then relationships @ [mentioned_in person year] else relationships)"

fun relationships_loop ::
  "string \<Rightarrow> string list \<Rightarrow> string list \<Rightarrow> ExtractedRelationship list \<Rightarrow> ExtractedRelationship list"
where
  "relationships_loop text [] years relationships = relationships"
| "relationships_loop text (person # persons) years relationships =
     relationships_loop text persons years (inner_loop text person years relationships)"

text \<open>
  The method \<open>SimpleRegexExtractor.extract\<close>; it is named \<open>extract_re\<close> here, since
  \<open>extract\<close> is a keyword of Isabelle.
\<close>

definition extract_re ::
  "(string list \<Rightarrow> string list) \<Rightarrow> string \<Rightarrow> ExtractedEntity list \<times> ExtractedRelationship list"
where
  "extract_re iter_set text =
     (let persons = iter_set (findall match_person text);
          entities = persons_loop persons [];
          years = iter_set (findall match_year text);
          entities = years_loop years entities;
          relationships = relationships_loop text persons years []
      in (entities, relationships))"

section \<open>The engine behind the SDK\<close>

text \<open>
  The session, the indexing pipeline and the query engine (the class \<open>GibRAMIndexer\<close>
  of the package \<open>gibram\<close> and the engine it talks to) are used by
  \<open>test_integration.py\<close>, \<open>quick_test.py\<close> and the examples, but their code is not
  part of the sources at hand. The definitions of this section are modelled from the
  specification, section by section. The two pluggable capabilities, the chunker and the
  community detector are parameters. Elapsed times are left out.
\<close>

text \<open>
  Modelled from the spec: the error kinds of section 7, missing from the sources.
\<close>

datatype engine_error =
  ConfigurationError | ConnectionError | ExtractionError | EmbeddingError
  | IndexingError | QueryError

subsection \<open>Session construction\<close>

text \<open>
  Modelled from the spec: the configuration surface of section 6, which the constructor
  of the missing class \<open>GibRAMIndexer\<close> receives. \<open>custom_extractor\<close> and
  \<open>custom_embedder\<close> say whether a plug-in was passed, so that the default capability
  is not selected; \<open>credential\<close> is the key the defaults need, \<open>None\<close> when it is
  given neither as an argument nor in the environment.
\<close>

record config =
  session_id :: string
  chunk_size :: int
  chunk_overlap :: int
  auto_detect_communities :: bool
  custom_extractor :: bool
  custom_embedder :: bool
  credential :: "string option"
  max_description_length :: nat

text \<open>
  Modelled from the spec: the validation at session creation (sections 6 and 7), missing
  from the sources: the session id is not empty, the chunk size is positive, the overlap
  is below the chunk size, and a selected default capability has its credential.
\<close>

definition valid_config :: "config \<Rightarrow> bool" where
  "valid_config c =
     (session_id c \<noteq> []
      \<and> 0 < chunk_size c
      \<and> chunk_overlap c < chunk_size c
      \<and> (if custom_extractor c \<and> custom_embedder c then True else credential c \<noteq> None))"

text \<open>
  Modelled from the spec: the resolved Entity of section 3 (canonical title and type,
  merged description, occurrence count, embedding vector, ids of the text units it was
  found in), missing from the sources.
\<close>

record Entity =
  entity_title :: string
  entity_type :: string
  entity_description :: string
  occurrence_count :: nat
  entity_embedding :: "real list"
  source_units :: "nat list"

text \<open>Modelled from the spec: the TextUnit of section 3, missing from the sources.\<close>

record TextUnit =
  unit_id :: nat
  document_id :: nat
  sequence_index :: nat
  content :: string

text \<open>Modelled from the spec: the Community of section 3, missing from the sources.\<close>

record Community =
  members :: "(string \<times> string) list"
  summary :: string

text \<open>
  Modelled from the spec: the counts of IndexStats (sections 3 and 6), missing from the
  sources, with the count of rejected text units of section 7.
\<close>

record IndexStats =
  documents_indexed :: nat
  text_units_created :: nat
  entities_extracted :: nat
  relationships_extracted :: nat
  communities_detected :: nat
  rejected_units :: nat

text \<open>
  Modelled from the spec: the counts of a call before any document is processed.
\<close>

definition zero_stats :: IndexStats where
  "zero_stats = \<lparr>documents_indexed = 0, text_units_created = 0, entities_extracted = 0,
     relationships_extracted = 0, communities_detected = 0, rejected_units = 0\<rparr>"

text \<open>
  Modelled from the spec: the accumulation of the counts of a call into the statistics of
  the session (section 3); the number of communities is that of the last detection.
\<close>

definition add_stats :: "IndexStats \<Rightarrow> IndexStats \<Rightarrow> IndexStats" where
  "add_stats a b =
     \<lparr>documents_indexed = documents_indexed a + documents_indexed b,
      text_units_created = text_units_created a + text_units_created b,
      entities_extracted = entities_extracted a + entities_extracted b,
      relationships_extracted = relationships_extracted a + relationships_extracted b,
      communities_detected = communities_detected b,
      rejected_units = rejected_units a + rejected_units b\<rparr>"

text \<open>
  Modelled from the spec: the Session of section 3, missing from the sources: its
  configuration, the entities of its graph, its text units, its communities and its
  accumulated statistics. The relationships of the graph are not needed below and are
  only counted.
\<close>

record session =
  session_config :: config
  graph_entities :: "Entity list"
  session_text_units :: "TextUnit list"
  session_communities :: "Community list"
  accumulated :: IndexStats

text \<open>
  Modelled from the spec: session construction (sections 6 and 7), missing from the
  sources: a ConfigurationError for an invalid configuration, raised at construction, and
  otherwise an empty session.
\<close>

definition new_session :: "config \<Rightarrow> engine_error + session" where
  "new_session c =
     (if valid_config c
      then Inr \<lparr>session_config = c, graph_entities = [], session_text_units = [],
                session_communities = [],
                accumulated = zero_stats\<rparr>
      else Inl ConfigurationError)"

text \<open>
  Modelled from the spec: the pluggable capabilities of section 4.2 with the chunker of
  section 4.1 and the community detector of section 4.4, which the claims below do not
  depend on. The extractor may fail on a text unit.
\<close>

record capabilities =
  extractor :: "string \<Rightarrow> engine_error + (ExtractedEntity list \<times> ExtractedRelationship list)"
  embedder :: "string \<Rightarrow> real list"
  chunker :: "string \<Rightarrow> string list"
  detector :: "Entity list \<Rightarrow> Community list"

subsection \<open>The graph builder\<close>

text \<open>
  Modelled from the spec: the normalisation of a title in section 4.3 (lower-case, and
  trim white space at both ends), missing from the sources.
\<close>

definition to_lower :: "char \<Rightarrow> char" where
  "to_lower c = (if is_upper c then char_of ((of_char c :: nat) + 32) else c)"

text \<open>
  Modelled from the spec: the white space that normalisation trims: the space and the
  control characters 9 to 13.
\<close>

definition is_space :: "char \<Rightarrow> bool" where
  "is_space c = ((of_char c :: nat) = 32 \<or> (9 \<le> (of_char c :: nat) \<and> (of_char c :: nat) \<le> 13))"

text \<open>
  Modelled from the spec: \<open>normalize\<close> of section 4.3.
\<close>

definition normalize_title :: "string \<Rightarrow> string" where
  "normalize_title t =
     map to_lower (rev (dropWhile is_space (rev (dropWhile is_space t))))"

text \<open>Modelled from the spec: the identity key of an entity in section 4.3.\<close>

definition entity_key :: "Entity \<Rightarrow> string \<times> string" where
  "entity_key e = (normalize_title (entity_title e), entity_type e)"

text \<open>
  Modelled from the spec: the identity key of an extracted entity (section 4.3).
\<close>

definition extracted_key :: "ExtractedEntity \<Rightarrow> string \<times> string" where
  "extracted_key x = (normalize_title (title x), type x)"

text \<open>
  Modelled from the spec: the bound on retained evidence in section 4.3: when the merged
  description is longer than the maximum, its oldest part is cut off.
\<close>

definition retain :: "nat \<Rightarrow> string \<Rightarrow> string" where
  "retain n d = drop (length d - n) d"

text \<open>
  Modelled from the spec: what section 4.3 does with an extracted entity whose key is
  new (\<open>create_entity\<close>) or is in the graph already (\<open>update_entity\<close>: one more
  occurrence, the new description appended as evidence on a line of its own, the
  embedding recomputed from the merged description).
\<close>

definition create_entity :: "capabilities \<Rightarrow> config \<Rightarrow> nat \<Rightarrow> ExtractedEntity \<Rightarrow> Entity" where
  "create_entity caps c uid x =
     (let d = retain (max_description_length c) (ExtractedEntity.description x) in
      \<lparr>entity_title = title x, entity_type = type x, entity_description = d,
       occurrence_count = 1, entity_embedding = embedder caps d, source_units = [uid]\<rparr>)"

text \<open>
  Modelled from the spec: the update on a key collision (section 4.3).
\<close>

definition update_entity :: "capabilities \<Rightarrow> config \<Rightarrow> nat \<Rightarrow> ExtractedEntity \<Rightarrow> Entity \<Rightarrow> Entity" where
  "update_entity caps c uid x e =
     (let d = retain (max_description_length c)
                (entity_description e @ [CHR 0x0A] @ ExtractedEntity.description x) in
      e\<lparr>entity_description := d,
        occurrence_count := occurrence_count e + 1,
        entity_embedding := embedder caps d,
        source_units := List.insert uid (source_units e)\<rparr>)"

text \<open>
  Modelled from the spec: the merge of one extracted entity into the entities of the
  graph (section 4.3), missing from the sources: the entity with the same key is
  updated, and a new entity is added when there is none.
\<close>

fun merge_entity ::
  "capabilities \<Rightarrow> config \<Rightarrow> nat \<Rightarrow> ExtractedEntity \<Rightarrow> Entity list \<Rightarrow> Entity list"
where
  "merge_entity caps c uid x [] = [create_entity caps c uid x]"
| "merge_entity caps c uid x (e # es) =
     (if entity_key e = extracted_key x
      then update_entity caps c uid x e # es
      else e # merge_entity caps c uid x es)"

text \<open>
  Modelled from the spec: the merge of the extracted entities of a text unit, one after
  the other (section 4.3).
\<close>

fun merge_entities ::
  "capabilities \<Rightarrow> config \<Rightarrow> nat \<Rightarrow> ExtractedEntity list \<Rightarrow> Entity list \<Rightarrow> Entity list"
where
  "merge_entities caps c uid [] es = es"
| "merge_entities caps c uid (x # xs) es =
     merge_entities caps c uid xs (merge_entity caps c uid x es)"

subsection \<open>The indexing pipeline\<close>

text \<open>
  Modelled from the spec: what indexing does with one text unit (sections 4.2, 4.3 and
  7), missing from the sources: the unit is stored, the extractor is called on it, and
  its entities are merged into the graph; a unit on which the extractor fails is counted
  as rejected and the indexing goes on.
\<close>

definition process_unit ::
  "capabilities \<Rightarrow> nat \<Rightarrow> nat \<Rightarrow> string \<Rightarrow> session \<times> IndexStats \<Rightarrow> session \<times> IndexStats"
where
  "process_unit caps doc_id seq unit acc =
     (let s = fst acc; st = snd acc;
          uid = length (session_text_units s);
          tu = \<lparr>unit_id = uid, document_id = doc_id, sequence_index = seq, content = unit\<rparr>;
          s1 = s\<lparr>session_text_units := session_text_units s @ [tu]\<rparr>;
          st1 = st\<lparr>text_units_created := text_units_created st + 1\<rparr>
      in case extractor caps unit of
           Inl err \<Rightarrow> (s1, st1\<lparr>rejected_units := rejected_units st1 + 1\<rparr>)
         | Inr (xs, rs) \<Rightarrow>
             (s1\<lparr>graph_entities :=
                   merge_entities caps (session_config s1) uid xs (graph_entities s1)\<rparr>,
              st1\<lparr>entities_extracted := entities_extracted st1 + length xs,
                  relationships_extracted := relationships_extracted st1 + length rs\<rparr>))"

text \<open>
  Modelled from the spec: the text units of a document are processed in sequence.
\<close>

fun process_units ::
  "capabilities \<Rightarrow> nat \<Rightarrow> nat \<Rightarrow> string list \<Rightarrow> session \<times> IndexStats \<Rightarrow> session \<times> IndexStats"
where
  "process_units caps doc_id seq [] acc = acc"
| "process_units caps doc_id seq (u # us) acc =
     process_units caps doc_id (seq + 1) us (process_unit caps doc_id seq u acc)"

text \<open>
  Modelled from the spec: indexing of one document (sections 2 and 6), missing from the
  sources: the chunker splits it into text units, the units are processed in order, and
  the document is counted.
\<close>

definition process_document ::
  "capabilities \<Rightarrow> string \<Rightarrow> session \<times> IndexStats \<Rightarrow> session \<times> IndexStats"
where
  "process_document caps doc acc =
     (let doc_id = documents_indexed (accumulated (fst acc)) + documents_indexed (snd acc);
          acc1 = process_units caps doc_id 0 (chunker caps doc) acc
      in (fst acc1, (snd acc1)\<lparr>documents_indexed := documents_indexed (snd acc1) + 1\<rparr>))"

text \<open>
  Modelled from the spec: the documents of a batch are processed in order; the merge into
  the graph is serialised (section 5).
\<close>

fun process_batch ::
  "capabilities \<Rightarrow> string list \<Rightarrow> session \<times> IndexStats \<Rightarrow> session \<times> IndexStats"
where
  "process_batch caps [] acc = acc"
| "process_batch caps (doc # docs) acc = process_batch caps docs (process_document caps doc acc)"

text \<open>
  Modelled from the spec: the batches of section 6 (\<open>processes documents in batches of
  the given size\<close>), missing from the sources. The spec names no error for a batch
  size and says that every document is indexed whatever the batch size, so a size below
  1 is taken as 1.
\<close>

function batches :: "int \<Rightarrow> 'a list \<Rightarrow> 'a list list" where
  "batches batch_size xs =
     (if xs = [] then []
      else take (nat (max 1 batch_size)) xs # batches batch_size (drop (nat (max 1 batch_size)) xs))"
  by pat_completeness auto
termination
  by (relation "measure (\<lambda>(batch_size, xs). length xs)") auto

declare batches.simps [simp del]

text \<open>
  Modelled from the spec: the batches of a call are processed one after the other.
\<close>

fun process_batches ::
  "capabilities \<Rightarrow> string list list \<Rightarrow> session \<times> IndexStats \<Rightarrow> session \<times> IndexStats"
where
  "process_batches caps [] acc = acc"
| "process_batches caps (b # bs) acc = process_batches caps bs (process_batch caps b acc)"

text \<open>
  Modelled from the spec: \<open>index_documents\<close> of section 6, missing from the sources:
  the documents are processed batch by batch, the communities are detected afterwards
  when the session is configured so, and the counts of the call are returned and added
  to the statistics of the session.
\<close>

definition index_documents ::
  "capabilities \<Rightarrow> string list \<Rightarrow> int \<Rightarrow> session \<Rightarrow> IndexStats \<times> session"
where
  "index_documents caps documents batch_size s =
     (let acc = process_batches caps (batches batch_size documents) (s, zero_stats);
          s1 = fst acc; st1 = snd acc;
          detect = auto_detect_communities (session_config s1);
          cs = (if detect then detector caps (graph_entities s1) else session_communities s1);
          st2 = st1\<lparr>communities_detected := (if detect then length cs else 0)\<rparr>
      in (st2, s1\<lparr>session_communities := cs, accumulated := add_stats (accumulated s1) st2\<rparr>))"

subsection \<open>The query engine\<close>

text \<open>
  Modelled from the spec: the cosine similarity of section 4.5, missing from the
  sources, on vectors of real numbers; it is 0 when one of the vectors has norm 0.
\<close>

fun dot :: "real list \<Rightarrow> real list \<Rightarrow> real" where
  "dot [] v = 0"
| "dot (x # u) [] = 0"
| "dot (x # u) (y # v) = x * y + dot u v"

text \<open>
  Modelled from the spec: the squared norm of a vector, for the cosine similarity.
\<close>

fun norm_sq :: "real list \<Rightarrow> real" where
  "norm_sq [] = 0"
| "norm_sq (x # u) = x * x + norm_sq u"

text \<open>
  Modelled from the spec: the cosine similarity of section 4.5.
\<close>

definition cosine :: "real list \<Rightarrow> real list \<Rightarrow> real" where
  "cosine u v =
     (let d = sqrt (norm_sq u) * sqrt (norm_sq v) in if d = 0 then 0 else dot u v / d)"

text \<open>Modelled from the spec: the scored items of a QueryResult (section 3).\<close>

record ScoredEntity =
  scored_entity :: Entity
  entity_score :: real

text \<open>
  Modelled from the spec: a text unit of a QueryResult with its score.
\<close>

record ScoredTextUnit =
  scored_unit :: TextUnit
  unit_score :: real

text \<open>
  Modelled from the spec: a community of a QueryResult with its score.
\<close>

record ScoredCommunity =
  scored_community :: Community
  community_score :: real

text \<open>
  Modelled from the spec: the QueryResult of section 3, without the execution time.
\<close>

record QueryResult =
  entities :: "ScoredEntity list"
  text_units :: "ScoredTextUnit list"
  communities :: "ScoredCommunity list"

text \<open>
  Modelled from the spec: the ranking of section 4.5, missing from the sources: the
  highest scores first; among entities of equal score the higher occurrence count
  first, then the title that is first in lexical order; among text units of equal score
  the lower id first; at most \<open>top_k\<close> items.
\<close>

definition entity_rank_key :: "ScoredEntity \<Rightarrow> real \<times> int \<times> string" where
  "entity_rank_key e =
     (- entity_score e, - int (occurrence_count (scored_entity e)), entity_title (scored_entity e))"

text \<open>
  Modelled from the spec: the rank of a text unit: score, then id (section 4.5).
\<close>

definition unit_rank_key :: "ScoredTextUnit \<Rightarrow> real \<times> nat" where
  "unit_rank_key u = (- unit_score u, unit_id (scored_unit u))"

text \<open>
  Modelled from the spec: the rank of a community: its score (section 4.5).
\<close>

definition community_rank_key :: "ScoredCommunity \<Rightarrow> real" where
  "community_rank_key c = - community_score c"

text \<open>
  Modelled from the spec: the entities facet: every entity scored against the query
  embedding, ranked, the first \<open>k\<close> kept (section 4.5).
\<close>

definition rank_entities ::
  "capabilities \<Rightarrow> real list \<Rightarrow> nat \<Rightarrow> Entity list \<Rightarrow> ScoredEntity list" where
  "rank_entities caps q k es =
     take k (sort_key entity_rank_key
       (map (\<lambda>e. \<lparr>scored_entity = e, entity_score = cosine q (entity_embedding e)\<rparr>) es))"

text \<open>
  Modelled from the spec: the text units facet; the embedding of a text unit is computed
  when it is scored (section 3: lazily).
\<close>

definition rank_text_units ::
  "capabilities \<Rightarrow> real list \<Rightarrow> nat \<Rightarrow> TextUnit list \<Rightarrow> ScoredTextUnit list" where
  "rank_text_units caps q k us =
     take k (sort_key unit_rank_key
       (map (\<lambda>u. \<lparr>scored_unit = u, unit_score = cosine q (embedder caps (content u))\<rparr>) us))"

text \<open>
  Modelled from the spec: the communities facet, scored on the embedding of the summary.
\<close>

definition rank_communities ::
  "capabilities \<Rightarrow> real list \<Rightarrow> nat \<Rightarrow> Community list \<Rightarrow> ScoredCommunity list" where
  "rank_communities caps q k cs =
     take k (sort_key community_rank_key
       (map (\<lambda>c. \<lparr>scored_community = c, community_score = cosine q (embedder caps (summary c))\<rparr>) cs))"

text \<open>
  Modelled from the spec: \<open>query\<close> of sections 4.5, 6 and 7, missing from the
  sources: a negative \<open>top_k\<close> is a QueryError; the query is embedded once; a facet is
  scored and ranked only when its flag is set, and is empty otherwise.
\<close>

definition query ::
  "capabilities \<Rightarrow> session \<Rightarrow> string \<Rightarrow> int \<Rightarrow> bool \<Rightarrow> bool \<Rightarrow> bool
     \<Rightarrow> engine_error + QueryResult"
where
  "query caps s text top_k include_entities include_text_units include_communities =
     (if top_k < 0 then Inl QueryError
      else
        let q = embedder caps text; k = nat top_k
        in Inr
          \<lparr>entities =
              (if include_entities then rank_entities caps q k (graph_entities s) else []),
            text_units =
              (if include_text_units then rank_text_units caps q k (session_text_units s) else []),
            communities =
              (if include_communities then rank_communities caps q k (session_communities s) else [])\<rparr>)"

text \<open>
  The order that section 4.5 asks of each facet of a result, as a relation between an
  item and a later item of the sequence.
\<close>

definition entity_ranks_before :: "ScoredEntity \<Rightarrow> ScoredEntity \<Rightarrow> bool" where
  "entity_ranks_before a b =
     (entity_score b < entity_score a
      \<or> (entity_score a = entity_score b
          \<and> (occurrence_count (scored_entity b) < occurrence_count (scored_entity a)
              \<or> (occurrence_count (scored_entity a) = occurrence_count (scored_entity b)
                  \<and> entity_title (scored_entity a) \<le> entity_title (scored_entity b)))))"

definition unit_ranks_before :: "ScoredTextUnit \<Rightarrow> ScoredTextUnit \<Rightarrow> bool" where
  "unit_ranks_before a b =
     (unit_score b < unit_score a
      \<or> (unit_score a = unit_score b \<and> unit_id (scored_unit a) \<le> unit_id (scored_unit b)))"

definition community_ranks_before :: "ScoredCommunity \<Rightarrow> ScoredCommunity \<Rightarrow> bool" where
  "community_ranks_before a b = (community_score b \<le> community_score a)"

subsection \<open>Observations on the graph\<close>

text \<open>
  The occurrence count that the graph holds for a key: the count of the entity with that
  key (there is at most one), and 0 when there is none.
\<close>

definition occurrences :: "string \<times> string \<Rightarrow> Entity list \<Rightarrow> nat" where
  "occurrences k es = sum_list (map occurrence_count (filter (\<lambda>e. entity_key e = k) es))"

text \<open>
  What the extractor returns for a text unit, for a document and for a list of
  documents, in the order in which indexing meets it: for every extracted entity its key
  and its description. \<open>extracted_keys\<close> are the keys alone, and \<open>evidence\<close> are the
  descriptions extracted for one key.
\<close>

definition unit_items :: "capabilities \<Rightarrow> string \<Rightarrow> ((string \<times> string) \<times> string) list" where
  "unit_items caps u =
     (case extractor caps u of
        Inl err \<Rightarrow> []
      | Inr (xs, rs) \<Rightarrow> map (\<lambda>x. (extracted_key x, ExtractedEntity.description x)) xs)"

definition doc_items :: "capabilities \<Rightarrow> string \<Rightarrow> ((string \<times> string) \<times> string) list" where
  "doc_items caps doc = concat (map (unit_items caps) (chunker caps doc))"

definition extracted_items ::
  "capabilities \<Rightarrow> string list \<Rightarrow> ((string \<times> string) \<times> string) list" where
  "extracted_items caps docs = concat (map (doc_items caps) docs)"

definition extracted_keys :: "capabilities \<Rightarrow> string list \<Rightarrow> (string \<times> string) list" where
  "extracted_keys caps docs = map fst (extracted_items caps docs)"

definition evidence :: "capabilities \<Rightarrow> string \<times> string \<Rightarrow> string list \<Rightarrow> string list" where
  "evidence caps k docs = map snd (filter (\<lambda>item. fst item = k) (extracted_items caps docs))"

text \<open>
  A description after descriptions have been appended to it as evidence, one after the
  other, each on a line of its own, under the bound on the retained length (section 4.3).
\<close>

definition append_evidence :: "nat \<Rightarrow> string \<Rightarrow> string list \<Rightarrow> string" where
  "append_evidence n d news = foldl (\<lambda>acc new. retain n (acc @ [CHR 0x0A] @ new)) d news"

text \<open>The keys of a graph after it has met a list of extracted keys.\<close>

fun absorb :: "'k list \<Rightarrow> 'k list \<Rightarrow> 'k list" where
  "absorb ks [] = ks"
| "absorb ks (x # xs) = absorb (if x \<in> set ks then ks else ks @ [x]) xs"

text \<open>
  The sessions that can arise: a session as constructed, and a session after a call of
  \<open>index_documents\<close> on a session that can arise.
\<close>

inductive reachable :: "capabilities \<Rightarrow> session \<Rightarrow> bool" for caps where
  constructed: "new_session c = Inr s \<Longrightarrow> reachable caps s"
| indexed: "reachable caps s \<Longrightarrow> index_documents caps docs batch_size s = (st, s')
            \<Longrightarrow> reachable caps s'"

text \<open>
  \<open>merged n X es es'\<close>: the entities \<open>es'\<close> are what the entities \<open>es\<close> become once the
  extracted items \<open>X\<close> have been merged into them, with \<open>n\<close> the bound on the retained
  length of a description: the keys, the occurrence counts, and the descriptions of the
  entities that were there before.
\<close>

definition merged ::
  "nat \<Rightarrow> ((string \<times> string) \<times> string) list \<Rightarrow> Entity list \<Rightarrow> Entity list \<Rightarrow> bool" where
  "merged n X es es' =
     (map entity_key es' = absorb (map entity_key es) (map fst X)
      \<and> (\<forall>k. occurrences k es' = occurrences k es + count_list (map fst X) k)
      \<and> (\<forall>i < length es.
            entity_description (es' ! i)
              = append_evidence n (entity_description (es ! i))
                  (map snd (filter (\<lambda>item. fst item = entity_key (es ! i)) X))))"

subsection \<open>Sample data\<close>

text \<open>
  Capabilities, a configuration and sessions for running the model on concrete inputs:
  the regex-based extractor above as the extractor plug-in, an embedder that maps a text
  to a vector of two numbers, a chunker that makes one text unit of a document, and no
  community detection.
\<close>

definition sample_capabilities :: capabilities where
  "sample_capabilities =
     \<lparr>extractor = (\<lambda>t. Inr (extract_re remdups t)),
      embedder = (\<lambda>t. [real (length t), 1]),
      chunker = (\<lambda>doc. [doc]),
      detector = (\<lambda>es. [])\<rparr>"

definition sample_config :: config where
  "sample_config =
     \<lparr>session_id = ''custom-demo'', chunk_size = 256, chunk_overlap = 32,
      auto_detect_communities = False, custom_extractor = True, custom_embedder = True,
      credential = None, max_description_length = 1000\<rparr>"

definition sample_session :: session where
  "sample_session =
     \<lparr>session_config = sample_config, graph_entities = [], session_text_units = [],
      session_communities = [], accumulated = zero_stats\<rparr>"

definition sample_indexed :: session where
  "sample_indexed = snd (index_documents sample_capabilities [''Ada Lovelace 1843''] 1 sample_session)"

section \<open>Properties of the embedder\<close>

lemma floats_loop_length:
  "length (floats_loop hb is vec) = length vec + length is"
  by (induction "is" arbitrary: vec) auto

lemma range_step4_length: "length (range_step4 stop) = nat ((stop + 3) div 4)"
  by (simp add: range_step4_def)






lemma embed_loop_map:
  "embed_loop sha256 self texts acc = acc @ map (embed_text sha256 self) texts"
  by (induction texts arbitrary: acc) auto

lemma embed_map: "embed sha256 self texts = map (embed_text sha256 self) texts"
  by (simp add: embed_def embed_loop_map)

subsection \<open>Claims about the embedder\<close>




text \<open>
  Claim C2. The embedder is deterministic: the vector it returns for a text depends on
  the text and the instance only, not on the batch the text is in nor on its position
  there. Whenever the same text stands at position \<open>i\<close> of one batch and at position
  \<open>j\<close> of another, the same instance returns the same vector at \<open>i\<close> and at \<open>j\<close>.
  Vectors are compared by the representation of their floats.
\<close>

theorem embed_same_text_same_vector:
  assumes "i < length xs" and "j < length ys" and "xs ! i = ys ! j"
  shows "embed sha256 self xs ! i = embed sha256 self ys ! j"
  using assms by (simp add: embed_map)

theorem embed_same_text_same_vector_witness:
  "(1::nat) < length [''a'', ''bc''] \<and> (0::nat) < length [''bc'']
   \<and> [''a'', ''bc''] ! 1 = [''bc''] ! 0
   \<and> embed sample_digest \<lparr>dimensions = 2\<rparr> [''a'', ''bc''] ! 1
       = embed sample_digest \<lparr>dimensions = 2\<rparr> [''bc''] ! 0"
proof -
  have h1: "(1::nat) < length [''a'', ''bc'']" by simp
  have h2: "(0::nat) < length [''bc'']" by simp
  have h3: "[''a'', ''bc''] ! 1 = [''bc''] ! 0" by simp
  from embed_same_text_same_vector [OF h1 h2 h3] h1 h2 h3 show ?thesis by blast
qed

text \<open>
  Claim C3. \<open>embed_single\<close> is \<open>embed\<close> on a one-element batch: for every text
  \<open>t\<close>, \<open>embed([t])\<close> has exactly one element, \<open>embed_single(t)\<close> returns (it does
  not raise) and its result is that element.
\<close>

theorem embed_single_is_embed_singleton:
  "embed_single sha256 self text = Inr (embed sha256 self [text] ! 0)
   \<and> length (embed sha256 self [text]) = 1"
  by (simp add: embed_single_def embed_map)

lemma embed_example:
  "embed sample_digest \<lparr>dimensions = 2\<rparr> [''a'', ''bc''] =
     [[Unpacked [1, 1, 1, 1], Unpacked [1, 1, 1, 1]],
      [Unpacked [2, 2, 2, 2], Unpacked [2, 2, 2, 2]]]"
  by code_simp

section \<open>Properties of the extractor\<close>

lemma two_runs_prefix:
  assumes "dropWhile P r1 = sp # c2 # r4"
  shows "prefix (c1 # takeWhile P r1 @ sp # c2 # takeWhile P r4) (c1 # r1)"
proof -
  have "r1 = takeWhile P r1 @ dropWhile P r1" by simp
  also have "\<dots> = takeWhile P r1 @ sp # c2 # (takeWhile P r4 @ dropWhile P r4)"
    by (simp only: assms takeWhile_dropWhile_id)
  finally have "c1 # r1 = (c1 # takeWhile P r1 @ sp # c2 # takeWhile P r4) @ dropWhile P r4"
    by simp
  then show ?thesis by (metis prefixI)
qed

lemma match_person_prefix:
  assumes "match_person prev s = Some g"
  shows "prefix g s"
  using assms unfolding match_person_def Let_def
  by (auto split: if_splits list.splits simp del: takeWhile_eq_Nil_iff intro!: two_runs_prefix)

lemma match_year_prefix:
  assumes "match_year prev s = Some g"
  shows "prefix g s"
  using assms by (auto simp: match_year_def split: if_splits list.splits)

lemma str_contains_prefix: "prefix g s \<Longrightarrow> str_contains s g"
  by (cases s) (auto simp: prefix_def)

lemma str_contains_tail: "str_contains cs g \<Longrightarrow> str_contains (c # cs) g"
  by simp

lemma findall_from_contains:
  assumes m: "\<And>prev s g. m prev s = Some g \<Longrightarrow> prefix g s"
  shows "g \<in> set (findall_from m prev skip s) \<Longrightarrow> str_contains s g"
proof (induction s arbitrary: prev skip)
  case Nil
  then show ?case by simp
next
  case (Cons c cs)
  show ?case
  proof (cases "0 < skip")
    case True
    with Cons.prems have "g \<in> set (findall_from m (Some c) (skip - 1) cs)" by simp
    then show ?thesis using Cons.IH by simp
  next
    case False
    show ?thesis
    proof (cases "m prev (c # cs)")
      case None
      with False Cons.prems have "g \<in> set (findall_from m (Some c) 0 cs)" by simp
      then show ?thesis using Cons.IH by simp
    next
      case (Some h)
      with False Cons.prems
      consider "g = h" | "g \<in> set (findall_from m (Some c) (length h - 1) cs)" by auto
      then show ?thesis
      proof cases
        case 1
        with Some m have "prefix g (c # cs)" by blast
        then show ?thesis by simp
      next
        case 2
        then show ?thesis using Cons.IH by simp
      qed
    qed
  qed
qed

lemma findall_person_contains:
  "g \<in> set (findall match_person text) \<Longrightarrow> str_contains text g"
  unfolding findall_def by (rule findall_from_contains [of match_person]) (rule match_person_prefix)

lemma findall_year_contains:
  "g \<in> set (findall match_year text) \<Longrightarrow> str_contains text g"
  unfolding findall_def by (rule findall_from_contains [of match_year]) (rule match_year_prefix)

lemma persons_loop_map: "persons_loop persons ents = ents @ map person_entity persons"
  by (induction persons arbitrary: ents) auto

lemma years_loop_map: "years_loop years ents = ents @ map year_entity years"
  by (induction years arbitrary: ents) auto

lemma inner_loop_map:
  assumes "str_contains text person" and "\<forall>y \<in> set years. str_contains text y"
  shows "inner_loop text person years rels = rels @ map (mentioned_in person) years"
  using assms by (induction years arbitrary: rels) auto

lemma relationships_loop_map:
  assumes "\<forall>p \<in> set persons. str_contains text p" and "\<forall>y \<in> set years. str_contains text y"
  shows "relationships_loop text persons years rels =
           rels @ concat (map (\<lambda>p. map (mentioned_in p) years) persons)"
  using assms by (induction persons arbitrary: rels) (auto simp: inner_loop_map)

lemma count_list_distinct:
  "distinct xs \<Longrightarrow> count_list xs x = (if x \<in> set xs then 1 else 0)"
  by (induction xs) auto

lemma filter_row:
  "length (filter ((\<lambda>r. source_title r = p \<and> target_title r = y) \<circ> mentioned_in p') ys)
     = (if p' = p then count_list ys y else 0)"
  by (induction ys) (auto simp: mentioned_in_def)

lemma filter_rows:
  "length (filter (\<lambda>r. source_title r = p \<and> target_title r = y)
             (concat (map (\<lambda>p'. map (mentioned_in p') ys) ps)))
     = count_list ps p * count_list ys y"
proof (induction ps)
  case Nil
  then show ?case by simp
next
  case (Cons a ps)
  have "length (filter (\<lambda>r. source_title r = p \<and> target_title r = y) (map (mentioned_in a) ys))
          = (if a = p then count_list ys y else 0)"
    using filter_row [of p y a ys] by (simp add: filter_map)
  with Cons show ?case by (simp del: filter_map)
qed

lemma extract_re_eq:
  assumes "set persons = set (findall match_person text)"
      and "set years = set (findall match_year text)"
      and "persons = iter_set (findall match_person text)"
      and "years = iter_set (findall match_year text)"
  shows "extract_re iter_set text =
           (map person_entity persons @ map year_entity years,
            concat (map (\<lambda>p. map (mentioned_in p) years) persons))"
proof -
  have p: "\<forall>p \<in> set persons. str_contains text p"
    using assms(1) findall_person_contains by blast
  have y: "\<forall>y \<in> set years. str_contains text y"
    using assms(2) findall_year_contains by blast
  show ?thesis
    unfolding extract_re_def Let_def assms(3) [symmetric] assms(4) [symmetric]
    by (simp add: persons_loop_map years_loop_map relationships_loop_map [OF p y])
qed

lemma findall_person_example:
  "findall match_person ''Ada Lovelace 1843'' = [''Ada Lovelace'']"
  by code_simp

lemma findall_year_example:
  "findall match_year ''Ada Lovelace 1843'' = [''1843'']"
  by code_simp

lemma extract_re_example:
  "extract_re remdups ''Ada Lovelace 1843'' =
     ([person_entity ''Ada Lovelace'', year_entity ''1843''],
      [mentioned_in ''Ada Lovelace'' ''1843''])"
  by code_simp

subsection \<open>Claims about the extractor\<close>

text \<open>
  Claim C10. For every text, when the two sets are iterated in some order of their
  elements, every relationship that \<open>extract\<close> returns has as its source the title of
  a Person entity and as its target the title of a Year entity of the same result, both
  found in the text by the two patterns, has type \<open>MENTIONED_IN\<close> and weight 0.5; and
  for every person and every year found in the text exactly one relationship from that
  person to that year is returned. The test \<open>person in text and year in text\<close> never
  fails, since a match is a piece of the text.
\<close>

theorem extract_re_relationships_resolved:
  assumes "is_set_of (iter_set (findall match_person text)) (findall match_person text)"
      and "is_set_of (iter_set (findall match_year text)) (findall match_year text)"
      and "extract_re iter_set text = (ents, rels)"
  shows "(\<forall>r \<in> set rels.
            (\<exists>e \<in> set ents. type e = ''Person'' \<and> title e = source_title r)
          \<and> (\<exists>e \<in> set ents. type e = ''Year'' \<and> title e = target_title r)
          \<and> source_title r \<in> set (findall match_person text)
          \<and> target_title r \<in> set (findall match_year text)
          \<and> relationship_type r = ''MENTIONED_IN'' \<and> weight r = 0.5)
       \<and> (\<forall>p \<in> set (findall match_person text). \<forall>y \<in> set (findall match_year text).
            length (filter (\<lambda>r. source_title r = p \<and> target_title r = y) rels) = 1)"
proof -
  define persons where "persons = iter_set (findall match_person text)"
  define years where "years = iter_set (findall match_year text)"
  have dp: "distinct persons" and sp: "set persons = set (findall match_person text)"
    using assms(1) by (simp_all add: is_set_of_def persons_def)
  have dy: "distinct years" and sy: "set years = set (findall match_year text)"
    using assms(2) by (simp_all add: is_set_of_def years_def)
  from extract_re_eq [OF sp sy persons_def years_def] assms(3)
  have e: "ents = map person_entity persons @ map year_entity years"
    and r: "rels = concat (map (\<lambda>p. map (mentioned_in p) years) persons)"
    by simp_all
  have 1: "\<forall>r \<in> set rels.
            (\<exists>e \<in> set ents. type e = ''Person'' \<and> title e = source_title r)
          \<and> (\<exists>e \<in> set ents. type e = ''Year'' \<and> title e = target_title r)
          \<and> source_title r \<in> set (findall match_person text)
          \<and> target_title r \<in> set (findall match_year text)
          \<and> relationship_type r = ''MENTIONED_IN'' \<and> weight r = 0.5"
  proof
    fix rel assume "rel \<in> set rels"
    then obtain p y where p: "p \<in> set persons" and y: "y \<in> set years"
      and rel: "rel = mentioned_in p y"
      unfolding r by auto
    have pe: "person_entity p \<in> set ents" and ye: "year_entity y \<in> set ents"
      using p y by (simp_all add: e)
    have "type (person_entity p) = ''Person'' \<and> title (person_entity p) = source_title rel"
      by (simp add: rel mentioned_in_def person_entity_def)
    with pe have a: "\<exists>e \<in> set ents. type e = ''Person'' \<and> title e = source_title rel"
      by blast
    have "type (year_entity y) = ''Year'' \<and> title (year_entity y) = target_title rel"
      by (simp add: rel mentioned_in_def year_entity_def)
    with ye have b: "\<exists>e \<in> set ents. type e = ''Year'' \<and> title e = target_title rel"
      by blast
    have c: "source_title rel \<in> set (findall match_person text)
          \<and> target_title rel \<in> set (findall match_year text)
          \<and> relationship_type rel = ''MENTIONED_IN'' \<and> weight rel = 0.5"
      using p y sp sy by (simp add: rel mentioned_in_def)
    from a b c
    show "(\<exists>e \<in> set ents. type e = ''Person'' \<and> title e = source_title rel)
          \<and> (\<exists>e \<in> set ents. type e = ''Year'' \<and> title e = target_title rel)
          \<and> source_title rel \<in> set (findall match_person text)
          \<and> target_title rel \<in> set (findall match_year text)
          \<and> relationship_type rel = ''MENTIONED_IN'' \<and> weight rel = 0.5"
      by blast
  qed
  have 2: "\<forall>p \<in> set (findall match_person text). \<forall>y \<in> set (findall match_year text).
            length (filter (\<lambda>r. source_title r = p \<and> target_title r = y) rels) = 1"
    unfolding r filter_rows using dp dy sp sy by (simp add: count_list_distinct)
  from 1 2 show ?thesis by blast
qed

theorem extract_re_relationships_resolved_witness:
  "is_set_of (remdups (findall match_person ''Ada Lovelace 1843''))
       (findall match_person ''Ada Lovelace 1843'')
   \<and> is_set_of (remdups (findall match_year ''Ada Lovelace 1843''))
       (findall match_year ''Ada Lovelace 1843'')
   \<and> ''Ada Lovelace'' \<in> set (findall match_person ''Ada Lovelace 1843'')
   \<and> ''1843'' \<in> set (findall match_year ''Ada Lovelace 1843'')
   \<and> snd (extract_re remdups ''Ada Lovelace 1843'') \<noteq> []
   \<and> length (filter (\<lambda>r. source_title r = ''Ada Lovelace'' \<and> target_title r = ''1843'')
        (snd (extract_re remdups ''Ada Lovelace 1843''))) = 1"
proof -
  let ?t = "''Ada Lovelace 1843''"
  have h1: "is_set_of (remdups (findall match_person ?t)) (findall match_person ?t)"
    by (simp add: is_set_of_def)
  have h2: "is_set_of (remdups (findall match_year ?t)) (findall match_year ?t)"
    by (simp add: is_set_of_def)
  have h3: "extract_re remdups ?t = (fst (extract_re remdups ?t), snd (extract_re remdups ?t))"
    by simp
  have p: "''Ada Lovelace'' \<in> set (findall match_person ?t)"
    by (simp add: findall_person_example)
  have y: "''1843'' \<in> set (findall match_year ?t)"
    by (simp add: findall_year_example)
  have n: "snd (extract_re remdups ?t) \<noteq> []"
    by (simp add: extract_re_example)
  from extract_re_relationships_resolved [OF h1 h2 h3] p y
  have "length (filter (\<lambda>r. source_title r = ''Ada Lovelace'' \<and> target_title r = ''1843'')
        (snd (extract_re remdups ?t))) = 1"
    by blast
  with h1 h2 p y n show ?thesis by blast
qed

lemma mset_pairs:
  assumes "mset ps1 = mset ps2" and "mset ys1 = mset ys2"
  shows "mset (concat (map (\<lambda>p. map (f p) ys1) ps1))
       = mset (concat (map (\<lambda>p. map (f p) ys2) ps2))"
proof -
  have "mset (concat (map (\<lambda>p. map (f p) ys1) ps1))
        = sum_list (map (\<lambda>p. image_mset (f p) (mset ys1)) ps1)"
    by (simp add: mset_concat comp_def)
  also have "\<dots> = sum_mset (image_mset (\<lambda>p. image_mset (f p) (mset ys1)) (mset ps1))"
    by (simp add: sum_mset_sum_list [symmetric])
  also have "\<dots> = sum_mset (image_mset (\<lambda>p. image_mset (f p) (mset ys2)) (mset ps2))"
    by (simp only: assms)
  also have "\<dots> = sum_list (map (\<lambda>p. image_mset (f p) (mset ys2)) ps2)"
    by (simp add: sum_mset_sum_list [symmetric])
  also have "\<dots> = mset (concat (map (\<lambda>p. map (f p) ys2) ps2))"
    by (simp add: mset_concat comp_def)
  finally show ?thesis .
qed

lemma is_set_of_mset:
  "is_set_of ys xs \<Longrightarrow> is_set_of zs xs \<Longrightarrow> mset ys = mset zs"
  unfolding is_set_of_def by (metis set_eq_iff_mset_eq_distinct)

lemma findall_person_example2: "findall match_person ''Ada Lovelace 1843 1844'' = [''Ada Lovelace'']"
  by code_simp
lemma findall_year_example2: "findall match_year ''Ada Lovelace 1843 1844'' = [''1843'', ''1844'']"
  by code_simp

lemma extract_re_example_forward: "extract_re remdups ''Ada Lovelace 1843 1844'' =
   ([person_entity ''Ada Lovelace'', year_entity ''1843'', year_entity ''1844''],
    [mentioned_in ''Ada Lovelace'' ''1843'', mentioned_in ''Ada Lovelace'' ''1844''])"
  by code_simp

lemma extract_re_example_backward: "extract_re (rev \<circ> remdups) ''Ada Lovelace 1843 1844'' =
   ([person_entity ''Ada Lovelace'', year_entity ''1844'', year_entity ''1843''],
    [mentioned_in ''Ada Lovelace'' ''1844'', mentioned_in ''Ada Lovelace'' ''1843''])"
  by code_simp

text \<open>
  Claim C4, as amended. \<open>extract\<close> reads nothing but its argument: no attribute of
  the extractor and no global, and its two result lists are created anew by every call.
  The one thing besides the text that enters the result is the order in which the
  interpreter iterates the two sets. So two calls with the same text return the same
  entities and the same relationships, each the same number of times, whatever the two
  iteration orders are; the order of the two lists can differ.
\<close>

theorem extract_re_same_up_to_order:
  assumes "is_set_of (iter1 (findall match_person text)) (findall match_person text)"
      and "is_set_of (iter1 (findall match_year text)) (findall match_year text)"
      and "is_set_of (iter2 (findall match_person text)) (findall match_person text)"
      and "is_set_of (iter2 (findall match_year text)) (findall match_year text)"
  shows "mset (fst (extract_re iter1 text)) = mset (fst (extract_re iter2 text))
       \<and> mset (snd (extract_re iter1 text)) = mset (snd (extract_re iter2 text))"
proof -
  let ?p1 = "iter1 (findall match_person text)" and ?y1 = "iter1 (findall match_year text)"
  let ?p2 = "iter2 (findall match_person text)" and ?y2 = "iter2 (findall match_year text)"
  have e1: "extract_re iter1 text =
      (map person_entity ?p1 @ map year_entity ?y1, concat (map (\<lambda>p. map (mentioned_in p) ?y1) ?p1))"
    using assms(1,2) by (intro extract_re_eq) (simp_all add: is_set_of_def)
  have e2: "extract_re iter2 text =
      (map person_entity ?p2 @ map year_entity ?y2, concat (map (\<lambda>p. map (mentioned_in p) ?y2) ?p2))"
    using assms(3,4) by (intro extract_re_eq) (simp_all add: is_set_of_def)
  have p: "mset ?p1 = mset ?p2" using assms(1,3) by (rule is_set_of_mset)
  have y: "mset ?y1 = mset ?y2" using assms(2,4) by (rule is_set_of_mset)
  have a: "mset (fst (extract_re iter1 text)) = mset (fst (extract_re iter2 text))"
    unfolding e1 e2 by (simp add: p y)
  have b: "mset (snd (extract_re iter1 text)) = mset (snd (extract_re iter2 text))"
    unfolding e1 e2 using mset_pairs [OF p y] by simp
  from a b show ?thesis by blast
qed

theorem extract_re_same_up_to_order_witness:
  "is_set_of (remdups (findall match_person ''Ada Lovelace 1843 1844''))
       (findall match_person ''Ada Lovelace 1843 1844'')
   \<and> is_set_of (remdups (findall match_year ''Ada Lovelace 1843 1844''))
       (findall match_year ''Ada Lovelace 1843 1844'')
   \<and> is_set_of ((rev \<circ> remdups) (findall match_person ''Ada Lovelace 1843 1844''))
       (findall match_person ''Ada Lovelace 1843 1844'')
   \<and> is_set_of ((rev \<circ> remdups) (findall match_year ''Ada Lovelace 1843 1844''))
       (findall match_year ''Ada Lovelace 1843 1844'')
   \<and> snd (extract_re remdups ''Ada Lovelace 1843 1844'') \<noteq> []
   \<and> mset (fst (extract_re remdups ''Ada Lovelace 1843 1844''))
       = mset (fst (extract_re (rev \<circ> remdups) ''Ada Lovelace 1843 1844''))
   \<and> mset (snd (extract_re remdups ''Ada Lovelace 1843 1844''))
       = mset (snd (extract_re (rev \<circ> remdups) ''Ada Lovelace 1843 1844''))"
proof -
  let ?t = "''Ada Lovelace 1843 1844''"
  have h1: "is_set_of (remdups (findall match_person ?t)) (findall match_person ?t)"
    by (simp add: is_set_of_def)
  have h2: "is_set_of (remdups (findall match_year ?t)) (findall match_year ?t)"
    by (simp add: is_set_of_def)
  have h3: "is_set_of ((rev \<circ> remdups) (findall match_person ?t)) (findall match_person ?t)"
    by (simp add: is_set_of_def)
  have h4: "is_set_of ((rev \<circ> remdups) (findall match_year ?t)) (findall match_year ?t)"
    by (simp add: is_set_of_def)
  have n: "snd (extract_re remdups ?t) \<noteq> []" by (simp add: extract_re_example_forward)
  from extract_re_same_up_to_order [OF h1 h2 h3 h4] h1 h2 h3 h4 n show ?thesis by blast
qed

text \<open>
  Claim C4 as it is stated fails: the result is not a function of the text alone. On
  the text \<open>Ada Lovelace 1843 1844\<close> the set of years has two elements, and a call that
  iterates it in the order of the first occurrences and a call that iterates it in the
  opposite order return different lists.
\<close>

theorem extract_re_order_counterexample:
  "is_set_of (remdups (findall match_person ''Ada Lovelace 1843 1844''))
       (findall match_person ''Ada Lovelace 1843 1844'')
   \<and> is_set_of (remdups (findall match_year ''Ada Lovelace 1843 1844''))
       (findall match_year ''Ada Lovelace 1843 1844'')
   \<and> is_set_of ((rev \<circ> remdups) (findall match_person ''Ada Lovelace 1843 1844''))
       (findall match_person ''Ada Lovelace 1843 1844'')
   \<and> is_set_of ((rev \<circ> remdups) (findall match_year ''Ada Lovelace 1843 1844''))
       (findall match_year ''Ada Lovelace 1843 1844'')
   \<and> extract_re remdups ''Ada Lovelace 1843 1844''
       \<noteq> extract_re (rev \<circ> remdups) ''Ada Lovelace 1843 1844''"
proof -
  have "extract_re remdups ''Ada Lovelace 1843 1844''
       \<noteq> extract_re (rev \<circ> remdups) ''Ada Lovelace 1843 1844''"
    unfolding extract_re_example_forward extract_re_example_backward by (simp add: year_entity_def)
  then show ?thesis by (simp add: is_set_of_def)
qed

section \<open>Properties of the engine model\<close>

subsection \<open>Batches\<close>

lemma concat_batches: "concat (batches n xs) = xs"
proof (induction n xs rule: batches.induct)
  case (1 n xs)
  show ?case
  proof (cases "xs = []")
    case True
    then show ?thesis by (subst batches.simps) simp
  next
    case False
    with 1 show ?thesis by (subst batches.simps) simp
  qed
qed

subsection \<open>Cosine similarity and ranking\<close>

lemma two_xys_le:
  fixes x y S A B :: real
  assumes "S\<^sup>2 \<le> A * B" and "0 \<le> A" and "0 \<le> B"
  shows "2 * x * y * S \<le> x\<^sup>2 * B + A * y\<^sup>2"
proof -
  have nn: "0 \<le> x\<^sup>2 * B + A * y\<^sup>2" using assms by simp
  have "(2 * x * y * S)\<^sup>2 = 4 * (x\<^sup>2 * y\<^sup>2) * S\<^sup>2" by (simp add: power2_eq_square)
  also have "\<dots> \<le> 4 * (x\<^sup>2 * y\<^sup>2) * (A * B)"
    using assms(1) by (intro mult_left_mono) simp_all
  also have "\<dots> \<le> (x\<^sup>2 * B + A * y\<^sup>2)\<^sup>2"
  proof -
    have "(x\<^sup>2 * B + A * y\<^sup>2)\<^sup>2 - 4 * (x\<^sup>2 * y\<^sup>2) * (A * B) = (x\<^sup>2 * B - A * y\<^sup>2)\<^sup>2"
      by (simp add: power2_eq_square algebra_simps)
    moreover have "0 \<le> (x\<^sup>2 * B - A * y\<^sup>2)\<^sup>2" by simp
    ultimately show ?thesis by linarith
  qed
  finally have "(2 * x * y * S)\<^sup>2 \<le> (x\<^sup>2 * B + A * y\<^sup>2)\<^sup>2" .
  then have "\<bar>2 * x * y * S\<bar> \<le> x\<^sup>2 * B + A * y\<^sup>2"
    using nn by (metis abs_le_square_iff abs_of_nonneg)
  then show ?thesis by linarith
qed

lemma norm_sq_nonneg: "0 \<le> norm_sq u"
  by (induction u) simp_all

lemma dot_sq_le: "(dot u v)\<^sup>2 \<le> norm_sq u * norm_sq v"
proof (induction u v rule: dot.induct)
  case (1 v)
  then show ?case by simp
next
  case (2 x u)
  then show ?case by simp
next
  case (3 x u y v)
  have "2 * x * y * dot u v \<le> x\<^sup>2 * norm_sq v + norm_sq u * y\<^sup>2"
    using two_xys_le [OF 3 norm_sq_nonneg norm_sq_nonneg] .
  with 3 show ?case
    by (simp add: power2_eq_square algebra_simps)
qed

lemma cosine_bounds: "- 1 \<le> cosine u v \<and> cosine u v \<le> 1"
proof (cases "sqrt (norm_sq u) * sqrt (norm_sq v) = 0")
  case True
  then show ?thesis by (simp add: cosine_def)
next
  case False
  let ?d = "sqrt (norm_sq u) * sqrt (norm_sq v)"
  have d: "0 < ?d" using False norm_sq_nonneg [of u] norm_sq_nonneg [of v]
    by (metis less_eq_real_def mult_nonneg_nonneg real_sqrt_ge_zero)
  have "\<bar>dot u v\<bar> = sqrt ((dot u v)\<^sup>2)" by simp
  also have "\<dots> \<le> sqrt (norm_sq u * norm_sq v)"
    using dot_sq_le by (simp only: real_sqrt_le_iff)
  also have "\<dots> = ?d" by (simp add: real_sqrt_mult)
  finally have "\<bar>dot u v\<bar> \<le> ?d" .
  then have "\<bar>dot u v\<bar> / ?d \<le> 1" using d by (simp only: divide_le_eq_1_pos)
  then have "\<bar>dot u v / ?d\<bar> \<le> 1" using d by (simp only: abs_divide abs_of_pos)
  then have "- 1 \<le> dot u v / ?d \<and> dot u v / ?d \<le> 1" by linarith
  moreover have "cosine u v = dot u v / ?d" using False by (simp only: cosine_def Let_def if_False)
  ultimately show ?thesis by (simp only:)
qed

lemma sorted_wrt_take_sort_key:
  assumes "\<And>a b. f a \<le> f b \<Longrightarrow> R a b"
  shows "sorted_wrt R (take k (sort_key f xs))"
proof -
  have "sorted (map f (sort_key f xs))" by (rule sorted_sort_key)
  then have "sorted_wrt (\<lambda>x y. f x \<le> f y) (sort_key f xs)" by (simp only: sorted_map)
  then have "sorted_wrt R (sort_key f xs)"
    by (rule sorted_wrt_mono_rel [rotated]) (simp add: assms)
  then show ?thesis by (rule sorted_wrt_take)
qed

lemma entity_key_le:
  "entity_rank_key a \<le> entity_rank_key b \<Longrightarrow> entity_ranks_before a b"
  by (auto simp: entity_rank_key_def entity_ranks_before_def less_eq_prod_def)

lemma unit_key_le:
  "unit_rank_key a \<le> unit_rank_key b \<Longrightarrow> unit_ranks_before a b"
  by (auto simp: unit_rank_key_def unit_ranks_before_def less_eq_prod_def)

lemma community_key_le:
  "community_rank_key a \<le> community_rank_key b \<Longrightarrow> community_ranks_before a b"
  by (simp add: community_rank_key_def community_ranks_before_def)

lemma rank_entities_sorted: "sorted_wrt entity_ranks_before (rank_entities caps q k es)"
  unfolding rank_entities_def by (rule sorted_wrt_take_sort_key) (rule entity_key_le)

lemma rank_text_units_sorted: "sorted_wrt unit_ranks_before (rank_text_units caps q k us)"
  unfolding rank_text_units_def by (rule sorted_wrt_take_sort_key) (rule unit_key_le)

lemma rank_communities_sorted: "sorted_wrt community_ranks_before (rank_communities caps q k cs)"
  unfolding rank_communities_def by (rule sorted_wrt_take_sort_key) (rule community_key_le)

lemma rank_entities_score:
  assumes "e \<in> set (rank_entities caps q k es)"
  shows "- 1 \<le> entity_score e \<and> entity_score e \<le> 1"
proof -
  from assms have "e \<in> set (map (\<lambda>e. \<lparr>scored_entity = e, entity_score = cosine q (entity_embedding e)\<rparr>) es)"
    unfolding rank_entities_def by (auto dest: in_set_takeD)
  then show ?thesis using cosine_bounds [of q] by auto
qed

lemma rank_text_units_score:
  assumes "u \<in> set (rank_text_units caps q k us)"
  shows "- 1 \<le> unit_score u \<and> unit_score u \<le> 1"
proof -
  from assms have "u \<in> set (map (\<lambda>u. \<lparr>scored_unit = u, unit_score = cosine q (embedder caps (content u))\<rparr>) us)"
    unfolding rank_text_units_def by (auto dest: in_set_takeD)
  then show ?thesis using cosine_bounds [of q] by auto
qed

lemma rank_communities_score:
  assumes "c \<in> set (rank_communities caps q k cs)"
  shows "- 1 \<le> community_score c \<and> community_score c \<le> 1"
proof -
  from assms have "c \<in> set (map (\<lambda>c. \<lparr>scored_community = c, community_score = cosine q (embedder caps (summary c))\<rparr>) cs)"
    unfolding rank_communities_def by (auto dest: in_set_takeD)
  then show ?thesis using cosine_bounds [of q] by auto
qed

subsection \<open>The graph builder\<close>

lemma absorb_append: "absorb ks (xs @ ys) = absorb (absorb ks xs) ys"
  by (induction xs arbitrary: ks) simp_all

lemma set_absorb: "set (absorb ks xs) = set ks \<union> set xs"
  by (induction xs arbitrary: ks) auto

lemma distinct_absorb: "distinct ks \<Longrightarrow> distinct (absorb ks xs)"
  by (induction xs arbitrary: ks) auto

lemma absorb_known: "set xs \<subseteq> set ks \<Longrightarrow> absorb ks xs = ks"
  by (induction xs arbitrary: ks) auto

lemma entity_key_update [simp]: "entity_key (update_entity caps c uid x e) = entity_key e"
  by (simp add: update_entity_def entity_key_def Let_def)

lemma entity_key_create [simp]: "entity_key (create_entity caps c uid x) = extracted_key x"
  by (simp add: create_entity_def entity_key_def extracted_key_def Let_def)

lemma keys_merge_entity:
  "map entity_key (merge_entity caps c uid x es)
     = (if extracted_key x \<in> set (map entity_key es) then map entity_key es
        else map entity_key es @ [extracted_key x])"
  by (induction es) auto

lemma keys_merge_entities:
  "map entity_key (merge_entities caps c uid xs es)
     = absorb (map entity_key es) (map extracted_key xs)"
  by (induction xs arbitrary: es) (simp_all add: keys_merge_entity)

lemma occurrences_Cons:
  "occurrences k (e # es) = (if entity_key e = k then occurrence_count e else 0) + occurrences k es"
  by (simp add: occurrences_def)

lemma occurrences_absent: "k \<notin> set (map entity_key es) \<Longrightarrow> occurrences k es = 0"
  by (induction es) (auto simp: occurrences_Cons occurrences_def)

lemma occurrences_merge_entity:
  assumes "distinct (map entity_key es)"
  shows "occurrences k (merge_entity caps c uid x es)
           = occurrences k es + (if extracted_key x = k then 1 else 0)"
  using assms
proof (induction es)
  case Nil
  have "occurrence_count (create_entity caps c uid x) = 1"
    by (simp add: create_entity_def Let_def)
  then show ?case by (simp add: occurrences_Cons occurrences_def)
next
  case (Cons e es)
  show ?case
  proof (cases "entity_key e = extracted_key x")
    case True
    have "occurrence_count (update_entity caps c uid x e) = occurrence_count e + 1"
      by (simp add: update_entity_def Let_def)
    with True show ?thesis
      by (simp add: occurrences_Cons)
  next
    case False
    with Cons show ?thesis by (simp add: occurrences_Cons)
  qed
qed

lemma distinct_merge_entity:
  "distinct (map entity_key es) \<Longrightarrow> distinct (map entity_key (merge_entity caps c uid x es))"
  by (simp add: keys_merge_entity)

lemma occurrences_merge_entities:
  assumes "distinct (map entity_key es)"
  shows "occurrences k (merge_entities caps c uid xs es)
           = occurrences k es + count_list (map extracted_key xs) k"
  using assms
  by (induction xs arbitrary: es)
     (simp_all add: occurrences_merge_entity distinct_merge_entity)

lemma absorb_extends: "\<exists>zs. absorb ks xs = ks @ zs"
proof (induction xs arbitrary: ks)
  case Nil
  then show ?case by simp
next
  case (Cons x xs)
  show ?case
  proof (cases "x \<in> set ks")
    case True
    then show ?thesis using Cons [of ks] by simp
  next
    case False
    from Cons [of "ks @ [x]"] obtain zs where "absorb (ks @ [x]) xs = (ks @ [x]) @ zs" by blast
    with False have "absorb ks (x # xs) = ks @ ([x] @ zs)" by simp
    then show ?thesis by blast
  qed
qed

lemma append_evidence_Nil [simp]: "append_evidence n d [] = d"
  by (simp add: append_evidence_def)

lemma append_evidence_append:
  "append_evidence n d (xs @ ys) = append_evidence n (append_evidence n d xs) ys"
  by (simp add: append_evidence_def)

lemma append_evidence_one:
  "append_evidence n d [new] = retain n (d @ [CHR 0x0A] @ new)"
  by (simp add: append_evidence_def)

lemma append_evidence_fits:
  "length (d @ concat (map (\<lambda>new. CHR 0x0A # new) news)) \<le> n
     \<Longrightarrow> append_evidence n d news = d @ concat (map (\<lambda>new. CHR 0x0A # new) news)"
proof (induction news arbitrary: d)
  case Nil
  then show ?case by simp
next
  case (Cons new news)
  from Cons.prems have "length (d @ [CHR 0x0A] @ new) \<le> n" by simp
  then have r: "retain n (d @ [CHR 0x0A] @ new) = d @ [CHR 0x0A] @ new"
    by (simp add: retain_def)
  from Cons.prems
  have "length ((d @ [CHR 0x0A] @ new) @ concat (map (\<lambda>new. CHR 0x0A # new) news)) \<le> n"
    by simp
  from Cons.IH [OF this] have "append_evidence n (d @ [CHR 0x0A] @ new) news
      = (d @ [CHR 0x0A] @ new) @ concat (map (\<lambda>new. CHR 0x0A # new) news)" .
  moreover have "append_evidence n d (new # news)
      = append_evidence n (retain n (d @ [CHR 0x0A] @ new)) news"
    by (simp add: append_evidence_def)
  ultimately show ?case using r by simp
qed

lemma merged_Nil: "merged n [] es es"
  by (simp add: merged_def)

lemma merged_append:
  assumes 1: "merged n X es es'" and 2: "merged n Y es' es''"
  shows "merged n (X @ Y) es es''"
proof -
  from 1 have k1: "map entity_key es' = absorb (map entity_key es) (map fst X)"
    by (simp add: merged_def)
  then obtain zs where zs: "map entity_key es' = map entity_key es @ zs"
    using absorb_extends by metis
  have len: "length es \<le> length es'"
    using arg_cong [OF zs, of length] by simp
  have key: "entity_key (es' ! i) = entity_key (es ! i)" if "i < length es" for i
  proof -
    from that len have "entity_key (es' ! i) = map entity_key es' ! i" by simp
    also have "\<dots> = map entity_key es ! i" using that by (simp add: zs nth_append)
    also have "\<dots> = entity_key (es ! i)" using that by simp
    finally show ?thesis .
  qed
  have d: "entity_description (es'' ! i)
        = append_evidence n (entity_description (es ! i))
            (map snd (filter (\<lambda>item. fst item = entity_key (es ! i)) (X @ Y)))"
    if i: "i < length es" for i
  proof -
    from i len have "i < length es'" by simp
    with 2 have "entity_description (es'' ! i)
        = append_evidence n (entity_description (es' ! i))
            (map snd (filter (\<lambda>item. fst item = entity_key (es' ! i)) Y))"
      by (simp add: merged_def)
    moreover from 1 i have "entity_description (es' ! i)
        = append_evidence n (entity_description (es ! i))
            (map snd (filter (\<lambda>item. fst item = entity_key (es ! i)) X))"
      by (simp add: merged_def)
    ultimately show ?thesis by (simp add: key [OF i] append_evidence_append)
  qed
  from 1 2 have "map entity_key es'' = absorb (map entity_key es) (map fst (X @ Y))"
    by (simp add: merged_def absorb_append)
  moreover from 1 2
  have "\<forall>k. occurrences k es'' = occurrences k es + count_list (map fst (X @ Y)) k"
    by (simp add: merged_def)
  ultimately show ?thesis using d by (simp add: merged_def)
qed

lemma merged_distinct:
  "distinct (map entity_key es) \<Longrightarrow> merged n X es es' \<Longrightarrow> distinct (map entity_key es')"
  by (simp add: merged_def distinct_absorb)

lemma merge_entity_known:
  assumes "distinct (map entity_key es)" and "extracted_key x \<in> set (map entity_key es)"
  shows "merge_entity caps c uid x es
           = map (\<lambda>e. if entity_key e = extracted_key x then update_entity caps c uid x e else e) es"
  using assms
proof (induction es)
  case Nil
  then show ?case by simp
next
  case (Cons e es)
  show ?case
  proof (cases "entity_key e = extracted_key x")
    case True
    with Cons.prems have "extracted_key x \<notin> entity_key ` set es" by simp
    then have "\<forall>e' \<in> set es. entity_key e' \<noteq> extracted_key x" by (metis imageI)
    then have "map (\<lambda>e. if entity_key e = extracted_key x then update_entity caps c uid x e else e) es = es"
      by (induction es) auto
    with True show ?thesis by simp
  next
    case False
    with Cons show ?thesis by auto
  qed
qed

lemma merge_entity_new:
  "extracted_key x \<notin> set (map entity_key es)
     \<Longrightarrow> merge_entity caps c uid x es = es @ [create_entity caps c uid x]"
  by (induction es) auto

lemma merged_merge_entity:
  assumes "distinct (map entity_key es)"
  shows "merged (max_description_length c) [(extracted_key x, ExtractedEntity.description x)] es
           (merge_entity caps c uid x es)"
proof -
  let ?n = "max_description_length c"
  let ?X = "[(extracted_key x, ExtractedEntity.description x)]"
  have d: "entity_description (merge_entity caps c uid x es ! i)
        = append_evidence ?n (entity_description (es ! i))
            (map snd (filter (\<lambda>item. fst item = entity_key (es ! i)) ?X))"
    if i: "i < length es" for i
  proof (cases "extracted_key x \<in> set (map entity_key es)")
    case True
    have u: "entity_description (update_entity caps c uid x (es ! i))
          = retain ?n (entity_description (es ! i) @ [CHR 0x0A] @ ExtractedEntity.description x)"
      by (simp add: update_entity_def Let_def)
    show ?thesis
      using i by (simp add: merge_entity_known [OF assms True] u append_evidence_one)
  next
    case False
    with i have "entity_key (es ! i) \<noteq> extracted_key x" by (metis nth_mem image_eqI set_map)
    with i show ?thesis by (simp add: merge_entity_new [OF False] nth_append)
  qed
  have "map entity_key (merge_entity caps c uid x es) = absorb (map entity_key es) (map fst ?X)"
    by (simp add: keys_merge_entity)
  moreover have "\<forall>k. occurrences k (merge_entity caps c uid x es)
       = occurrences k es + count_list (map fst ?X) k"
    by (simp add: occurrences_merge_entity [OF assms])
  ultimately show ?thesis using d by (simp add: merged_def)
qed

lemma merged_merge_entities:
  assumes "distinct (map entity_key es)"
  shows "merged (max_description_length c)
           (map (\<lambda>x. (extracted_key x, ExtractedEntity.description x)) xs) es
           (merge_entities caps c uid xs es)"
  using assms
proof (induction xs arbitrary: es)
  case Nil
  then show ?case by (simp add: merged_Nil)
next
  case (Cons x xs)
  let ?es = "merge_entity caps c uid x es"
  have 1: "merged (max_description_length c)
             [(extracted_key x, ExtractedEntity.description x)] es ?es"
    using Cons.prems by (rule merged_merge_entity)
  have "distinct (map entity_key ?es)"
    using Cons.prems by (rule distinct_merge_entity)
  then have 2: "merged (max_description_length c)
             (map (\<lambda>x. (extracted_key x, ExtractedEntity.description x)) xs) ?es
             (merge_entities caps c uid xs ?es)"
    by (rule Cons.IH)
  from merged_append [OF 1 2] show ?case by simp
qed

lemma process_unit_config:
  "session_config (fst (process_unit caps d q u acc)) = session_config (fst acc)"
  by (simp add: process_unit_def Let_def split: sum.splits prod.splits)

lemma process_units_config:
  "session_config (fst (process_units caps d q us acc)) = session_config (fst acc)"
  by (induction us arbitrary: q acc) (simp_all add: process_unit_config)

lemma process_document_config:
  "session_config (fst (process_document caps doc acc)) = session_config (fst acc)"
  by (simp add: process_document_def Let_def process_units_config)

lemma process_batch_config:
  "session_config (fst (process_batch caps docs acc)) = session_config (fst acc)"
  by (induction docs arbitrary: acc) (simp_all add: process_document_config)

lemma process_batches_config:
  "session_config (fst (process_batches caps bs acc)) = session_config (fst acc)"
  by (induction bs arbitrary: acc) (simp_all add: process_batch_config)

lemma index_documents_config:
  "session_config (snd (index_documents caps docs batch_size s)) = session_config s"
  by (simp add: index_documents_def Let_def process_batches_config)

lemma merged_process_unit:
  assumes "distinct (map entity_key (graph_entities (fst acc)))"
  shows "merged (max_description_length (session_config (fst acc))) (unit_items caps u)
           (graph_entities (fst acc)) (graph_entities (fst (process_unit caps d q u acc)))"
proof (cases "extractor caps u")
  case (Inl err)
  then show ?thesis by (simp add: process_unit_def Let_def unit_items_def merged_Nil)
next
  case (Inr p)
  obtain xs rs where p: "p = (xs, rs)" by (cases p)
  from Inr p assms show ?thesis
    by (simp add: process_unit_def Let_def unit_items_def merged_merge_entities)
qed

lemma merged_process_units:
  assumes "distinct (map entity_key (graph_entities (fst acc)))"
  shows "merged (max_description_length (session_config (fst acc)))
           (concat (map (unit_items caps) us))
           (graph_entities (fst acc)) (graph_entities (fst (process_units caps d q us acc)))"
  using assms
proof (induction us arbitrary: q acc)
  case Nil
  then show ?case by (simp add: merged_Nil)
next
  case (Cons u us)
  let ?acc = "process_unit caps d q u acc"
  let ?n = "max_description_length (session_config (fst acc))"
  have 1: "merged ?n (unit_items caps u) (graph_entities (fst acc)) (graph_entities (fst ?acc))"
    using Cons.prems by (rule merged_process_unit)
  then have "distinct (map entity_key (graph_entities (fst ?acc)))"
    using Cons.prems merged_distinct by blast
  from Cons.IH [OF this, of "q + 1"]
  have 2: "merged ?n (concat (map (unit_items caps) us)) (graph_entities (fst ?acc))
           (graph_entities (fst (process_units caps d (q + 1) us ?acc)))"
    by (simp add: process_unit_config)
  from merged_append [OF 1 2] show ?case by simp
qed

lemma merged_process_document:
  assumes "distinct (map entity_key (graph_entities (fst acc)))"
  shows "merged (max_description_length (session_config (fst acc))) (doc_items caps doc)
           (graph_entities (fst acc)) (graph_entities (fst (process_document caps doc acc)))"
  using merged_process_units [OF assms] by (simp add: process_document_def Let_def doc_items_def)

lemma merged_process_batch:
  assumes "distinct (map entity_key (graph_entities (fst acc)))"
  shows "merged (max_description_length (session_config (fst acc))) (extracted_items caps docs)
           (graph_entities (fst acc)) (graph_entities (fst (process_batch caps docs acc)))"
  using assms
proof (induction docs arbitrary: acc)
  case Nil
  then show ?case by (simp add: merged_Nil extracted_items_def)
next
  case (Cons doc docs)
  let ?acc = "process_document caps doc acc"
  let ?n = "max_description_length (session_config (fst acc))"
  have 1: "merged ?n (doc_items caps doc) (graph_entities (fst acc)) (graph_entities (fst ?acc))"
    using Cons.prems by (rule merged_process_document)
  then have "distinct (map entity_key (graph_entities (fst ?acc)))"
    using Cons.prems merged_distinct by blast
  from Cons.IH [OF this]
  have 2: "merged ?n (extracted_items caps docs) (graph_entities (fst ?acc))
           (graph_entities (fst (process_batch caps docs ?acc)))"
    by (simp add: process_document_config)
  from merged_append [OF 1 2] show ?case by (simp add: extracted_items_def)
qed

lemma merged_process_batches:
  assumes "distinct (map entity_key (graph_entities (fst acc)))"
  shows "merged (max_description_length (session_config (fst acc)))
           (extracted_items caps (concat bs))
           (graph_entities (fst acc)) (graph_entities (fst (process_batches caps bs acc)))"
  using assms
proof (induction bs arbitrary: acc)
  case Nil
  then show ?case by (simp add: merged_Nil extracted_items_def)
next
  case (Cons b bs)
  let ?acc = "process_batch caps b acc"
  let ?n = "max_description_length (session_config (fst acc))"
  have 1: "merged ?n (extracted_items caps b) (graph_entities (fst acc)) (graph_entities (fst ?acc))"
    using Cons.prems by (rule merged_process_batch)
  then have "distinct (map entity_key (graph_entities (fst ?acc)))"
    using Cons.prems merged_distinct by blast
  from Cons.IH [OF this]
  have 2: "merged ?n (extracted_items caps (concat bs)) (graph_entities (fst ?acc))
           (graph_entities (fst (process_batches caps bs ?acc)))"
    by (simp add: process_batch_config)
  from merged_append [OF 1 2] show ?case by (simp add: extracted_items_def)
qed

lemma merged_index_documents:
  assumes "distinct (map entity_key (graph_entities s))"
  shows "merged (max_description_length (session_config s)) (extracted_items caps docs)
           (graph_entities s) (graph_entities (snd (index_documents caps docs batch_size s)))"
proof -
  from assms have "distinct (map entity_key (graph_entities (fst (s, zero_stats))))" by simp
  from merged_process_batches [OF this, of caps "batches batch_size docs"]
  show ?thesis by (simp add: index_documents_def Let_def concat_batches)
qed

lemma reachable_distinct:
  "reachable caps s \<Longrightarrow> distinct (map entity_key (graph_entities s))"
proof (induction rule: reachable.induct)
  case (constructed c s)
  then show ?case by (auto simp: new_session_def split: if_splits)
next
  case (indexed s docs batch_size st s')
  from merged_index_documents [OF indexed.IH, of caps docs batch_size] indexed.hyps(2) indexed.IH
  show ?case by (auto dest: merged_distinct)
qed

subsection \<open>The model on sample data\<close>

lemma new_session_sample: "new_session sample_config = Inr sample_session"
  by (simp add: new_session_def valid_config_def sample_config_def sample_session_def)

lemma sample_indexed_keys:
  "map entity_key (graph_entities sample_indexed) = [(''ada lovelace'', ''Person''), (''1843'', ''Year'')]"
  by code_simp

lemma sample_indexed_stats:
  "fst (index_documents sample_capabilities [''Ada Lovelace 1843''] 1 sample_session)
     = \<lparr>documents_indexed = 1, text_units_created = 1, entities_extracted = 2,
        relationships_extracted = 1, communities_detected = 0, rejected_units = 0\<rparr>"
  by code_simp

lemma sample_extracted_keys:
  "extracted_keys sample_capabilities [''Ada Lovelace 1843'']
     = [(''ada lovelace'', ''Person''), (''1843'', ''Year'')]"
  by code_simp

lemma sample_occurrences:
  "occurrences (''ada lovelace'', ''Person'') (graph_entities sample_indexed) = 1"
  by code_simp

lemma sample_first_description:
  "entity_description (graph_entities sample_indexed ! 0) = ''Person mentioned: Ada Lovelace''"
  by code_simp

lemma sample_first_evidence:
  "evidence sample_capabilities (entity_key (graph_entities sample_indexed ! 0))
     [''Ada Lovelace 1843''] = [''Person mentioned: Ada Lovelace'']"
  by code_simp

lemma sample_bound: "max_description_length (session_config sample_indexed) = 1000"
  by code_simp

lemma sample_reindexed:
  "map (\<lambda>e. (entity_key e, occurrence_count e, entity_description e))
     (graph_entities (snd (index_documents sample_capabilities [''Ada Lovelace 1843''] 2 sample_indexed)))
   = [((''ada lovelace'', ''Person''), 2,
        ''Person mentioned: Ada Lovelace'' @ [CHR 0x0A] @ ''Person mentioned: Ada Lovelace''),
      ((''1843'', ''Year''), 2, ''Year mentioned: 1843'' @ [CHR 0x0A] @ ''Year mentioned: 1843'')]"
  by code_simp

lemma query_sample:
  "query sample_capabilities sample_indexed ''ada'' 5 True True True =
     Inr \<lparr>entities = rank_entities sample_capabilities (embedder sample_capabilities ''ada'') 5
                       (graph_entities sample_indexed),
          text_units = rank_text_units sample_capabilities (embedder sample_capabilities ''ada'') 5
                       (session_text_units sample_indexed),
          communities = rank_communities sample_capabilities (embedder sample_capabilities ''ada'') 5
                       (session_communities sample_indexed)\<rparr>"
  by (simp add: query_def Let_def)

lemma rank_entities_length: "length (rank_entities caps q k es) = min (length es) k"
  by (simp add: rank_entities_def)

subsection \<open>Claims about the engine\<close>

text \<open>
  Claim C5. Constructing a session with an empty session id, with an overlap that is
  not below the chunk size, or without the credential of a default capability that is
  selected gives a ConfigurationError at construction: no session results, so no
  document can have been processed.
\<close>

theorem new_session_rejects_invalid_config:
  assumes "session_id c = [] \<or> chunk_size c \<le> chunk_overlap c
           \<or> ((\<not> custom_extractor c \<or> \<not> custom_embedder c) \<and> credential c = None)"
  shows "new_session c = Inl ConfigurationError"
  using assms by (auto simp: new_session_def valid_config_def)

theorem new_session_rejects_invalid_config_witness:
  "chunk_size (sample_config\<lparr>chunk_overlap := 256\<rparr>) \<le> chunk_overlap (sample_config\<lparr>chunk_overlap := 256\<rparr>)
   \<and> new_session (sample_config\<lparr>chunk_overlap := 256\<rparr>) = Inl ConfigurationError"
proof -
  let ?c = "sample_config\<lparr>chunk_overlap := 256\<rparr>"
  have h: "chunk_size ?c \<le> chunk_overlap ?c" by (simp add: sample_config_def)
  then have "session_id ?c = [] \<or> chunk_size ?c \<le> chunk_overlap ?c
           \<or> ((\<not> custom_extractor ?c \<or> \<not> custom_embedder ?c) \<and> credential ?c = None)"
    by blast
  from new_session_rejects_invalid_config [OF this] h show ?thesis by blast
qed

text \<open>
  Claim C8. In every session that can arise no two entities have the same normalised
  (title, type) key. Indexing the same documents a second time adds no entity: the keys
  of the graph stay as they are, and the occurrence count of each key grows by the
  number of times the key was extracted from the documents. The description of every
  entity of the graph after the second indexing is its description before with the
  descriptions extracted for its key appended to it, in the order of extraction, each on
  a line of its own, cut at the front to the retained length; where the whole fits the
  retained length, it is the old description followed by all the new evidence.
\<close>

theorem reindexing_keeps_one_entity_per_key:
  assumes "reachable caps s0"
      and "index_documents caps docs b1 s0 = (st1, s1)"
      and "index_documents caps docs b2 s1 = (st2, s2)"
  shows "distinct (map entity_key (graph_entities s1))
       \<and> distinct (map entity_key (graph_entities s2))
       \<and> map entity_key (graph_entities s2) = map entity_key (graph_entities s1)
       \<and> (\<forall>k. occurrences k (graph_entities s2)
               = occurrences k (graph_entities s1) + count_list (extracted_keys caps docs) k)
       \<and> (\<forall>i < length (graph_entities s1).
             entity_description (graph_entities s2 ! i)
               = append_evidence (max_description_length (session_config s1))
                   (entity_description (graph_entities s1 ! i))
                   (evidence caps (entity_key (graph_entities s1 ! i)) docs)
             \<and> (length (entity_description (graph_entities s1 ! i)
                         @ concat (map (\<lambda>new. CHR 0x0A # new)
                             (evidence caps (entity_key (graph_entities s1 ! i)) docs)))
                   \<le> max_description_length (session_config s1)
                 \<longrightarrow> entity_description (graph_entities s2 ! i)
                       = entity_description (graph_entities s1 ! i)
                         @ concat (map (\<lambda>new. CHR 0x0A # new)
                             (evidence caps (entity_key (graph_entities s1 ! i)) docs))))"
proof -
  let ?X = "extracted_items caps docs"
  let ?n = "max_description_length (session_config s1)"
  have d0: "distinct (map entity_key (graph_entities s0))"
    using assms(1) by (rule reachable_distinct)
  have m1: "merged (max_description_length (session_config s0)) ?X
              (graph_entities s0) (graph_entities s1)"
    using merged_index_documents [OF d0, of caps docs b1] assms(2) by simp
  have d1: "distinct (map entity_key (graph_entities s1))"
    using d0 m1 by (rule merged_distinct)
  have m2: "merged ?n ?X (graph_entities s1) (graph_entities s2)"
    using merged_index_documents [OF d1, of caps docs b2] assms(3) by simp
  have d2: "distinct (map entity_key (graph_entities s2))"
    using d1 m2 by (rule merged_distinct)
  have "set (map fst ?X) \<subseteq> set (map entity_key (graph_entities s1))"
    using m1 by (simp add: merged_def set_absorb)
  then have k: "map entity_key (graph_entities s2) = map entity_key (graph_entities s1)"
    using m2 by (simp add: merged_def absorb_known)
  have o: "\<forall>k. occurrences k (graph_entities s2)
               = occurrences k (graph_entities s1) + count_list (extracted_keys caps docs) k"
    using m2 by (simp add: merged_def extracted_keys_def)
  have a: "\<forall>i < length (graph_entities s1).
             entity_description (graph_entities s2 ! i)
               = append_evidence ?n (entity_description (graph_entities s1 ! i))
                   (evidence caps (entity_key (graph_entities s1 ! i)) docs)"
    using m2 by (simp add: merged_def evidence_def)
  have e: "\<forall>i < length (graph_entities s1).
             entity_description (graph_entities s2 ! i)
               = append_evidence ?n (entity_description (graph_entities s1 ! i))
                   (evidence caps (entity_key (graph_entities s1 ! i)) docs)
             \<and> (length (entity_description (graph_entities s1 ! i)
                         @ concat (map (\<lambda>new. CHR 0x0A # new)
                             (evidence caps (entity_key (graph_entities s1 ! i)) docs)))
                   \<le> ?n
                 \<longrightarrow> entity_description (graph_entities s2 ! i)
                       = entity_description (graph_entities s1 ! i)
                         @ concat (map (\<lambda>new. CHR 0x0A # new)
                             (evidence caps (entity_key (graph_entities s1 ! i)) docs)))"
    using a append_evidence_fits by metis
  from d1 d2 k o e show ?thesis by blast
qed

theorem reindexing_keeps_one_entity_per_key_witness:
  "reachable sample_capabilities sample_session
   \<and> (0::nat) < length (graph_entities sample_indexed)
   \<and> map entity_key
        (graph_entities (snd (index_documents sample_capabilities [''Ada Lovelace 1843''] 2 sample_indexed)))
      = map entity_key (graph_entities sample_indexed)
   \<and> occurrences (''ada lovelace'', ''Person'')
        (graph_entities (snd (index_documents sample_capabilities [''Ada Lovelace 1843''] 2 sample_indexed)))
      = 2
   \<and> entity_description (graph_entities sample_indexed ! 0) = ''Person mentioned: Ada Lovelace''
   \<and> entity_description
        (graph_entities (snd (index_documents sample_capabilities [''Ada Lovelace 1843''] 2 sample_indexed)) ! 0)
      = ''Person mentioned: Ada Lovelace'' @ [CHR 0x0A] @ ''Person mentioned: Ada Lovelace''"
proof -
  let ?docs = "[''Ada Lovelace 1843'']"
  let ?r1 = "index_documents sample_capabilities ?docs 1 sample_session"
  let ?r2 = "index_documents sample_capabilities ?docs 2 sample_indexed"
  have h1: "reachable sample_capabilities sample_session"
    using new_session_sample by (rule reachable.constructed)
  have h2: "?r1 = (fst ?r1, sample_indexed)" by (simp add: sample_indexed_def)
  have h3: "?r2 = (fst ?r2, snd ?r2)" by simp
  have n: "(0::nat) < length (graph_entities sample_indexed)"
    using sample_indexed_keys by (metis length_map length_Cons zero_less_Suc)
  note t = reindexing_keeps_one_entity_per_key [OF h1 h2 h3]
  from t have k: "map entity_key (graph_entities (snd ?r2)) = map entity_key (graph_entities sample_indexed)"
    by blast
  from t have "occurrences (''ada lovelace'', ''Person'') (graph_entities (snd ?r2))
       = occurrences (''ada lovelace'', ''Person'') (graph_entities sample_indexed)
         + count_list (extracted_keys sample_capabilities ?docs) (''ada lovelace'', ''Person'')"
    by blast
  then have o: "occurrences (''ada lovelace'', ''Person'') (graph_entities (snd ?r2)) = 2"
    by (simp add: sample_occurrences sample_extracted_keys)
  from t n have "length (entity_description (graph_entities sample_indexed ! 0)
                         @ concat (map (\<lambda>new. CHR 0x0A # new)
                             (evidence sample_capabilities (entity_key (graph_entities sample_indexed ! 0)) ?docs)))
                   \<le> max_description_length (session_config sample_indexed)
                 \<longrightarrow> entity_description (graph_entities (snd ?r2) ! 0)
                       = entity_description (graph_entities sample_indexed ! 0)
                         @ concat (map (\<lambda>new. CHR 0x0A # new)
                             (evidence sample_capabilities (entity_key (graph_entities sample_indexed ! 0)) ?docs))"
    by blast
  then have d: "entity_description (graph_entities (snd ?r2) ! 0)
      = ''Person mentioned: Ada Lovelace'' @ [CHR 0x0A] @ ''Person mentioned: Ada Lovelace''"
    by (simp add: sample_first_description sample_first_evidence sample_bound)
  from h1 n k o sample_first_description d show ?thesis by blast
qed

text \<open>
  Claim C9. Every score of an entity, a text unit or a community in the result of a
  query lies between -1 and 1, and every facet is in descending order of score: among
  entities of equal score the higher occurrence count comes first, then the title that
  is first in lexical order; among text units of equal score the lower id comes first.
  Scores are real numbers here; rounding of floating-point numbers is not modelled.
\<close>

theorem query_scores_bounded_and_sorted:
  assumes "query caps s text top_k ie it ic = Inr r"
  shows "(\<forall>e \<in> set (entities r). - 1 \<le> entity_score e \<and> entity_score e \<le> 1)
       \<and> (\<forall>u \<in> set (text_units r). - 1 \<le> unit_score u \<and> unit_score u \<le> 1)
       \<and> (\<forall>c \<in> set (communities r). - 1 \<le> community_score c \<and> community_score c \<le> 1)
       \<and> sorted_wrt entity_ranks_before (entities r)
       \<and> sorted_wrt unit_ranks_before (text_units r)
       \<and> sorted_wrt community_ranks_before (communities r)"
proof -
  from assms have k: "0 \<le> top_k" by (auto simp: query_def split: if_splits)
  let ?q = "embedder caps text" and ?k = "nat top_k"
  from assms k have e: "entities r = (if ie then rank_entities caps ?q ?k (graph_entities s) else [])"
    and u: "text_units r = (if it then rank_text_units caps ?q ?k (session_text_units s) else [])"
    and c: "communities r = (if ic then rank_communities caps ?q ?k (session_communities s) else [])"
    by (auto simp: query_def Let_def)
  have 1: "\<forall>e \<in> set (entities r). - 1 \<le> entity_score e \<and> entity_score e \<le> 1"
    unfolding e using rank_entities_score by (cases ie) auto
  have 2: "\<forall>u \<in> set (text_units r). - 1 \<le> unit_score u \<and> unit_score u \<le> 1"
    unfolding u using rank_text_units_score by (cases it) auto
  have 3: "\<forall>c \<in> set (communities r). - 1 \<le> community_score c \<and> community_score c \<le> 1"
    unfolding c using rank_communities_score by (cases ic) auto
  have 4: "sorted_wrt entity_ranks_before (entities r)"
    unfolding e by (simp add: rank_entities_sorted)
  have 5: "sorted_wrt unit_ranks_before (text_units r)"
    unfolding u by (simp add: rank_text_units_sorted)
  have 6: "sorted_wrt community_ranks_before (communities r)"
    unfolding c by (simp add: rank_communities_sorted)
  from 1 2 3 4 5 6 show ?thesis by blast
qed
theorem query_scores_bounded_and_sorted_witness:
  "(\<exists>r. query sample_capabilities sample_indexed ''ada'' 5 True True True = Inr r
      \<and> length (entities r) = 2
      \<and> - 1 \<le> entity_score (entities r ! 0) \<and> entity_score (entities r ! 0) \<le> 1
      \<and> sorted_wrt entity_ranks_before (entities r))"
proof -
  let ?r = "\<lparr>entities = rank_entities sample_capabilities (embedder sample_capabilities ''ada'') 5
                       (graph_entities sample_indexed),
           text_units = rank_text_units sample_capabilities (embedder sample_capabilities ''ada'') 5
                       (session_text_units sample_indexed),
           communities = rank_communities sample_capabilities (embedder sample_capabilities ''ada'') 5
                       (session_communities sample_indexed)\<rparr>"
  have "length (graph_entities sample_indexed) = 2"
    using sample_indexed_keys by (metis length_map length_Cons list.size(3) numeral_2_eq_2)
  then have l: "length (entities ?r) = 2" by (simp add: rank_entities_length)
  then have m: "entities ?r ! 0 \<in> set (entities ?r)" by (simp del: QueryResult.simps)
  note t = query_scores_bounded_and_sorted [OF query_sample]
  from t m have b: "- 1 \<le> entity_score (entities ?r ! 0) \<and> entity_score (entities ?r ! 0) \<le> 1"
    by blast
  from t have s: "sorted_wrt entity_ranks_before (entities ?r)" by blast
  from query_sample l b s show ?thesis by blast
qed

end
